theory Spec2Isabelle
  imports Complex_Main
begin

section \<open>Data model of \<open>simulation.py\<close>\<close>

text \<open>
  The places where the Python raises: \<open>rng.choice\<close> on an empty sequence,
  \<open>max\<close> of an empty iterable, \<open>list.remove\<close> of an absent element, and
  \<open>np.random.default_rng\<close> on a negative seed. All four are \<open>ValueError\<close> in
  Python; they are kept apart here so that a theorem can say which one is reached.
\<close>

datatype error = ChoiceEmpty | MaxEmpty | RemoveMissing | SeedNegative

text \<open>
  \<open>numpy.random.Generator\<close> is not part of the repository. The generator is a
  state that yields one index draw per call of \<open>choice\<close>: \<open>draws\<close> is the sequence
  the seed determines, \<open>pos\<close> the number of draws consumed so far.
\<close>

record rng =
  draws :: "nat \<Rightarrow> nat"
  pos :: nat

definition rng_choice :: "'a list \<Rightarrow> rng \<Rightarrow> error + ('a \<times> rng)" where
  "rng_choice a g =
     (if a = [] then Inl ChoiceEmpty
      else Inr (a ! (draws g (pos g) mod length a), g\<lparr>pos := Suc (pos g)\<rparr>))"

record SimParams =
  P_values :: "int list"
  R_values :: "int list"
  n_matches :: int
  alpha :: real

record VoteContext =
  ctx_P :: int
  ctx_R :: int
  match_id :: int
  round_id :: int
  step_id :: int
  impostors :: "int set"

text \<open>One row of the \<open>votes\<close> list (a dict in the source, one key per field).\<close>

record VoteRecord =
  v_P :: int
  v_R :: int
  v_match :: int
  v_round :: int
  v_step :: int
  v_voter :: int
  v_target :: int
  v_voter_role :: string
  v_target_role :: string

text \<open>One row of the \<open>game_results\<close> list.\<close>

record GameResultRecord =
  g_P :: int
  g_R :: int
  g_match :: int
  g_round :: int
  g_step :: int
  g_eliminated :: int
  g_eliminated_role :: string
  g_max_votes :: nat
  g_tie_size :: nat
  g_impostors_wins :: bool

section \<open>Pure helpers\<close>

text \<open>\<open>choose_targets\<close>: the loop over the voters, \<open>targets\<close> being the accumulator.\<close>

fun choose_targets_loop ::
  "int list \<Rightarrow> int list \<Rightarrow> rng \<Rightarrow> int list \<Rightarrow> error + (int list \<times> rng)" where
  "choose_targets_loop players_alive [] g targets = Inr (targets, g)"
| "choose_targets_loop players_alive (voter # rest) g targets =
     (let possible_targets = filter (\<lambda>p. p \<noteq> voter) players_alive in
      case rng_choice possible_targets g of
        Inl e \<Rightarrow> Inl e
      | Inr (target, g') \<Rightarrow> choose_targets_loop players_alive rest g' (targets @ [target]))"

definition choose_targets :: "int list \<Rightarrow> rng \<Rightarrow> error + (int list \<times> rng)" where
  "choose_targets players_alive g = choose_targets_loop players_alive players_alive g []"

text \<open>
  \<open>collections.Counter\<close>: a dict of counts whose keys keep the order of first
  appearance, hence an association list.
\<close>

fun counter_add :: "(int \<times> nat) list \<Rightarrow> int \<Rightarrow> (int \<times> nat) list" where
  "counter_add [] k = [(k, 1)]"
| "counter_add ((k', c) # kvs) k =
     (if k' = k then (k', c + 1) # kvs else (k', c) # counter_add kvs k)"

definition Counter :: "int list \<Rightarrow> (int \<times> nat) list" where
  "Counter xs = foldl counter_add [] xs"

text \<open>Python's \<open>max\<close> of an iterable: it raises on the empty one.\<close>

fun py_max :: "nat list \<Rightarrow> error + nat" where
  "py_max [] = Inl MaxEmpty"
| "py_max (x # xs) = Inr (foldl max x xs)"

definition pick_eliminated_from_targets ::
  "int list \<Rightarrow> rng \<Rightarrow> error + ((int \<times> nat \<times> int list) \<times> rng)" where
  "pick_eliminated_from_targets targets g =
     (let count_votes = Counter targets in
      case py_max (map snd count_votes) of
        Inl e \<Rightarrow> Inl e
      | Inr max_votes \<Rightarrow>
          (let most_voted = map fst (filter (\<lambda>(player, v). v = max_votes) count_votes) in
           case rng_choice most_voted g of
             Inl e \<Rightarrow> Inl e
           | Inr (eliminated, g') \<Rightarrow> Inr ((eliminated, max_votes, most_voted), g')))"

definition impostors_win :: "int list \<Rightarrow> int set \<Rightarrow> bool" where
  "impostors_win players_alive imps =
     (let alive_set = set players_alive;
          n_imp = card (alive_set \<inter> imps);
          n_civ = card (alive_set - imps)
      in n_imp \<ge> n_civ)"

definition role_of :: "int \<Rightarrow> int set \<Rightarrow> string" where
  "role_of p imps = (if p \<in> imps then ''impostor'' else ''civil'')"

definition vote_row :: "VoteContext \<Rightarrow> int \<times> int \<Rightarrow> VoteRecord" where
  "vote_row ctx vt =
     \<lparr>v_P = ctx_P ctx, v_R = ctx_R ctx, v_match = match_id ctx, v_round = round_id ctx,
      v_step = step_id ctx, v_voter = fst vt, v_target = snd vt,
      v_voter_role = role_of (fst vt) (impostors ctx),
      v_target_role = role_of (snd vt) (impostors ctx)\<rparr>"

definition append_votes_rows ::
  "VoteRecord list \<Rightarrow> VoteContext \<Rightarrow> int list \<Rightarrow> int list \<Rightarrow> VoteRecord list" where
  "append_votes_rows votes ctx players_alive targets =
     votes @ map (vote_row ctx) (zip players_alive targets)"

definition append_game_result_row ::
  "GameResultRecord list \<Rightarrow> VoteContext \<Rightarrow> int \<Rightarrow> nat \<Rightarrow> nat \<Rightarrow> bool \<Rightarrow> GameResultRecord list" where
  "append_game_result_row game_results ctx eliminated max_votes tie_size impostors_wins_flag =
     game_results @
       [\<lparr>g_P = ctx_P ctx, g_R = ctx_R ctx, g_match = match_id ctx, g_round = round_id ctx,
         g_step = step_id ctx, g_eliminated = eliminated,
         g_eliminated_role = role_of eliminated (impostors ctx),
         g_max_votes = max_votes, g_tie_size = tie_size,
         g_impostors_wins = impostors_wins_flag\<rparr>]"

text \<open>\<open>players_alive.remove(eliminated)\<close>: the first occurrence goes, an absent one raises.\<close>

definition list_remove :: "int list \<Rightarrow> int \<Rightarrow> error + int list" where
  "list_remove xs x = (if x \<in> set xs then Inr (remove1 x xs) else Inl RemoveMissing)"

section \<open>Core simulation\<close>

text \<open>The guard of the \<open>while\<close> of \<open>simulate_round\<close>.\<close>

definition round_running :: "int list \<Rightarrow> int set \<Rightarrow> bool" where
  "round_running players_alive imps =
     (card (set players_alive \<inter> imps) > 0 \<and> \<not> impostors_win players_alive imps)"

text \<open>
  The body of the \<open>while\<close> of \<open>simulate_round\<close>, on the loop's variables
  (\<open>players_alive\<close>, \<open>step_id\<close>), the generator and the two output lists.
\<close>

definition round_step ::
  "VoteContext \<Rightarrow> int list \<Rightarrow> int \<Rightarrow> rng \<Rightarrow> VoteRecord list \<Rightarrow> GameResultRecord list \<Rightarrow>
   error + (int list \<times> int \<times> rng \<times> VoteRecord list \<times> GameResultRecord list)" where
  "round_step base_ctx players_alive sid g votes game_results =
     (let sid' = sid + 1;
          ctx = base_ctx\<lparr>step_id := sid'\<rparr> in
      case choose_targets players_alive g of
        Inl e \<Rightarrow> Inl e
      | Inr (targets, g1) \<Rightarrow>
          (let votes' = append_votes_rows votes ctx players_alive targets in
           case pick_eliminated_from_targets targets g1 of
             Inl e \<Rightarrow> Inl e
           | Inr ((eliminated, max_votes, most_voted), g2) \<Rightarrow>
               (case list_remove players_alive eliminated of
                  Inl e \<Rightarrow> Inl e
                | Inr players_alive' \<Rightarrow>
                    (let imp_win_flag = impostors_win players_alive' (impostors ctx);
                         game_results' = append_game_result_row game_results ctx eliminated
                                           max_votes (length most_voted) imp_win_flag
                     in Inr (players_alive', sid', g2, votes', game_results')))))"

function simulate_round_loop ::
  "VoteContext \<Rightarrow> int list \<Rightarrow> int \<Rightarrow> rng \<Rightarrow> VoteRecord list \<Rightarrow> GameResultRecord list \<Rightarrow>
   error + (int list \<times> int \<times> rng \<times> VoteRecord list \<times> GameResultRecord list)" where
  "simulate_round_loop base_ctx players_alive sid g votes game_results =
     (if round_running players_alive (impostors base_ctx) then
        (case round_step base_ctx players_alive sid g votes game_results of
           Inl e \<Rightarrow> Inl e
         | Inr (players_alive', sid', g', votes', game_results') \<Rightarrow>
             simulate_round_loop base_ctx players_alive' sid' g' votes' game_results')
      else Inr (players_alive, sid, g, votes, game_results))"
  by pat_completeness auto
termination
proof (relation "measure (\<lambda>(base_ctx, players_alive, sid, g, votes, game_results).
                            length players_alive)")
  show "wf (measure (\<lambda>(base_ctx, players_alive, sid, g, votes, game_results).
                            length players_alive))"
    by simp
next
  fix base_ctx :: VoteContext and players_alive :: "int list" and sid :: int and g :: rng
    and votes :: "VoteRecord list" and game_results :: "GameResultRecord list"
    and st and players_alive' rest1 sid' rest2 g' rest3 votes' game_results'
  assume st: "round_step base_ctx players_alive sid g votes game_results = Inr st"
    and "(players_alive', rest1) = st" "(sid', rest2) = rest1" "(g', rest3) = rest2"
    "(votes', game_results') = rest3"
  then have "\<exists>e. e \<in> set players_alive \<and> players_alive' = remove1 e players_alive"
    by (auto simp: round_step_def list_remove_def Let_def split: sum.splits prod.splits if_splits)
  then obtain e where e: "e \<in> set players_alive" "players_alive' = remove1 e players_alive"
    by blast
  from e(1) have "players_alive \<noteq> []" by auto
  with e show "((base_ctx, players_alive', sid', g', votes', game_results'),
                base_ctx, players_alive, sid, g, votes, game_results)
        \<in> measure (\<lambda>(base_ctx, players_alive, sid, g, votes, game_results).
                            length players_alive)"
    by (simp add: length_remove1)
qed

definition simulate_round ::
  "VoteContext \<Rightarrow> int list \<Rightarrow> rng \<Rightarrow> VoteRecord list \<Rightarrow> GameResultRecord list \<Rightarrow>
   error + (rng \<times> VoteRecord list \<times> GameResultRecord list)" where
  "simulate_round base_ctx players g votes game_results =
     (case simulate_round_loop base_ctx players 0 g votes game_results of
        Inl e \<Rightarrow> Inl e
      | Inr (players_alive, sid, g', votes', game_results') \<Rightarrow> Inr (g', votes', game_results'))"

text \<open>\<open>simulate_match\<close>: the loop over \<open>range(1, R + 1)\<close>.\<close>

fun simulate_match_loop ::
  "int \<Rightarrow> int \<Rightarrow> int \<Rightarrow> int list \<Rightarrow> int list \<Rightarrow> rng \<Rightarrow> VoteRecord list \<Rightarrow>
   GameResultRecord list \<Rightarrow> error + (rng \<times> VoteRecord list \<times> GameResultRecord list)" where
  "simulate_match_loop P R mid players [] g votes game_results = Inr (g, votes, game_results)"
| "simulate_match_loop P R mid players (rid # rids) g votes game_results =
     (case rng_choice players g of
        Inl e \<Rightarrow> Inl e
      | Inr (impostor, g1) \<Rightarrow>
          (let base_ctx = \<lparr>ctx_P = P, ctx_R = R, match_id = mid, round_id = rid,
                           step_id = 0, impostors = {impostor}\<rparr> in
           case simulate_round base_ctx players g1 votes game_results of
             Inl e \<Rightarrow> Inl e
           | Inr (g2, votes', game_results') \<Rightarrow>
               simulate_match_loop P R mid players rids g2 votes' game_results'))"

definition simulate_match ::
  "int \<Rightarrow> int \<Rightarrow> int \<Rightarrow> rng \<Rightarrow> VoteRecord list \<Rightarrow> GameResultRecord list \<Rightarrow>
   error + (rng \<times> VoteRecord list \<times> GameResultRecord list)" where
  "simulate_match P R mid g votes game_results =
     simulate_match_loop P R mid [0..P - 1] [1..R] g votes game_results"

text \<open>
  \<open>run_complete_simulation\<close>: the three nested \<open>for\<close> loops, innermost first. The
  counter \<open>match_id\<close> is threaded through all of them, with the generator and the lists.
\<close>

fun replicate_loop ::
  "nat \<Rightarrow> int \<Rightarrow> int \<Rightarrow> int \<Rightarrow> rng \<Rightarrow> VoteRecord list \<Rightarrow> GameResultRecord list \<Rightarrow>
   error + (int \<times> rng \<times> VoteRecord list \<times> GameResultRecord list)" where
  "replicate_loop 0 P R mid g votes game_results = Inr (mid, g, votes, game_results)"
| "replicate_loop (Suc n) P R mid g votes game_results =
     (let mid' = mid + 1 in
      case simulate_match P R mid' g votes game_results of
        Inl e \<Rightarrow> Inl e
      | Inr (g', votes', game_results') \<Rightarrow> replicate_loop n P R mid' g' votes' game_results')"

fun R_loop ::
  "int list \<Rightarrow> int \<Rightarrow> int \<Rightarrow> int \<Rightarrow> rng \<Rightarrow> VoteRecord list \<Rightarrow> GameResultRecord list \<Rightarrow>
   error + (int \<times> rng \<times> VoteRecord list \<times> GameResultRecord list)" where
  "R_loop [] nm P mid g votes game_results = Inr (mid, g, votes, game_results)"
| "R_loop (R # Rs) nm P mid g votes game_results =
     (case replicate_loop (nat nm) P R mid g votes game_results of
        Inl e \<Rightarrow> Inl e
      | Inr (mid', g', votes', game_results') \<Rightarrow> R_loop Rs nm P mid' g' votes' game_results')"

fun P_loop ::
  "int list \<Rightarrow> int list \<Rightarrow> int \<Rightarrow> int \<Rightarrow> rng \<Rightarrow> VoteRecord list \<Rightarrow> GameResultRecord list \<Rightarrow>
   error + (int \<times> rng \<times> VoteRecord list \<times> GameResultRecord list)" where
  "P_loop [] Rs nm mid g votes game_results = Inr (mid, g, votes, game_results)"
| "P_loop (P # Ps) Rs nm mid g votes game_results =
     (case R_loop Rs nm P mid g votes game_results of
        Inl e \<Rightarrow> Inl e
      | Inr (mid', g', votes', game_results') \<Rightarrow> P_loop Ps Rs nm mid' g' votes' game_results')"

text \<open>
  \<open>np.random.default_rng\<close> is numpy's: it raises on a negative integer seed, before the
  sweep starts, and otherwise returns the generator that the seed determines, which is
  taken as the parameter \<open>default_rng\<close>. The two data frames are the two lists of rows.
\<close>

definition run_complete_simulation ::
  "(int \<Rightarrow> rng) \<Rightarrow> SimParams \<Rightarrow> int \<Rightarrow> error + (VoteRecord list \<times> GameResultRecord list)" where
  "run_complete_simulation default_rng params seed =
     (if seed < 0 then Inl SeedNegative
      else
        (let g = default_rng seed in
         case P_loop (P_values params) (R_values params) (n_matches params) 0 g [] [] of
           Inl e \<Rightarrow> Inl e
         | Inr (mid, g', votes, game_results) \<Rightarrow> Inr (votes, game_results)))"

section \<open>The trace of a round\<close>

text \<open>
  The alive pool after the first \<open>j\<close> eliminations recorded in the result rows of a
  round: \<open>players_alive.remove(eliminated)\<close> replayed on the round's initial pool.
\<close>

definition alive_after :: "int list \<Rightarrow> GameResultRecord list \<Rightarrow> nat \<Rightarrow> int list" where
  "alive_after players rows j = fold remove1 (map g_eliminated (take j rows)) players"

text \<open>
  What the rows \<open>nv\<close>, \<open>nr\<close> that a round appends say about its steps, the round
  having started from the pool \<open>alive\<close> with step counter \<open>sid\<close>.
\<close>

definition round_trace ::
  "int set \<Rightarrow> int list \<Rightarrow> int \<Rightarrow> VoteRecord list \<Rightarrow> GameResultRecord list \<Rightarrow> bool" where
  "round_trace imps alive sid nv nr \<longleftrightarrow>
     (\<forall>j < length nr.
        g_step (nr ! j) = sid + int j + 1
      \<and> round_running (alive_after alive nr j) imps
      \<and> g_eliminated (nr ! j) \<in> set (alive_after alive nr j)
      \<and> g_impostors_wins (nr ! j) = impostors_win (alive_after alive nr (Suc j)) imps
      \<and> map v_voter (filter (\<lambda>v. v_step v = sid + int j + 1) nv) = alive_after alive nr j)
   \<and> (\<forall>v \<in> set nv. sid < v_step v \<and> v_step v \<le> sid + int (length nr))"

section \<open>A concrete round\<close>

text \<open>
  Test data: a generator whose every draw is 0, and the context, vote rows and result row
  of the round of three players it produces when player 0 is the impostor.
\<close>

abbreviation ex_rng :: "nat \<Rightarrow> rng" where
  "ex_rng n \<equiv> \<lparr>draws = (\<lambda>i. 0), pos = n\<rparr>"

abbreviation ex_ctx :: VoteContext where
  "ex_ctx \<equiv> \<lparr>ctx_P = 3, ctx_R = 1, match_id = 1, round_id = 1, step_id = 0,
              impostors = {0}\<rparr>"

abbreviation ex_votes :: "VoteRecord list" where
  "ex_votes \<equiv>
     [\<lparr>v_P = 3, v_R = 1, v_match = 1, v_round = 1, v_step = 1, v_voter = 0,
        v_target = 1, v_voter_role = ''impostor'', v_target_role = ''civil''\<rparr>,
      \<lparr>v_P = 3, v_R = 1, v_match = 1, v_round = 1, v_step = 1, v_voter = 1,
        v_target = 0, v_voter_role = ''civil'', v_target_role = ''impostor''\<rparr>,
      \<lparr>v_P = 3, v_R = 1, v_match = 1, v_round = 1, v_step = 1, v_voter = 2,
        v_target = 0, v_voter_role = ''civil'', v_target_role = ''impostor''\<rparr>]"

abbreviation ex_results :: "GameResultRecord list" where
  "ex_results \<equiv>
     [\<lparr>g_P = 3, g_R = 1, g_match = 1, g_round = 1, g_step = 1,
        g_eliminated = 0, g_eliminated_role = ''impostor'',
        g_max_votes = 2, g_tie_size = 1, g_impostors_wins = False\<rparr>]"

text \<open>
  The same round when player 2 is the impostor: the civilian 0 is voted out and the
  impostor reaches parity.
\<close>

abbreviation ex_ctx2 :: VoteContext where
  "ex_ctx2 \<equiv> \<lparr>ctx_P = 3, ctx_R = 1, match_id = 1, round_id = 1, step_id = 0,
               impostors = {2}\<rparr>"

abbreviation ex_votes2 :: "VoteRecord list" where
  "ex_votes2 \<equiv>
     [\<lparr>v_P = 3, v_R = 1, v_match = 1, v_round = 1, v_step = 1, v_voter = 0,
        v_target = 1, v_voter_role = ''civil'', v_target_role = ''civil''\<rparr>,
      \<lparr>v_P = 3, v_R = 1, v_match = 1, v_round = 1, v_step = 1, v_voter = 1,
        v_target = 0, v_voter_role = ''civil'', v_target_role = ''civil''\<rparr>,
      \<lparr>v_P = 3, v_R = 1, v_match = 1, v_round = 1, v_step = 1, v_voter = 2,
        v_target = 0, v_voter_role = ''impostor'', v_target_role = ''civil''\<rparr>]"

abbreviation ex_results2 :: "GameResultRecord list" where
  "ex_results2 \<equiv>
     [\<lparr>g_P = 3, g_R = 1, g_match = 1, g_round = 1, g_step = 1,
        g_eliminated = 0, g_eliminated_role = ''civil'',
        g_max_votes = 2, g_tie_size = 1, g_impostors_wins = True\<rparr>]"

section \<open>The coordinates of the rows\<close>

text \<open>The (P, R, match, round, step) columns of a row.\<close>

type_synonym coords = "int \<times> int \<times> int \<times> int \<times> int"

definition g_ids :: "GameResultRecord \<Rightarrow> coords" where
  "g_ids r = (g_P r, g_R r, g_match r, g_round r, g_step r)"

definition v_ids :: "VoteRecord \<Rightarrow> coords" where
  "v_ids v = (v_P v, v_R v, v_match v, v_round v, v_step v)"

definition coord_match :: "coords \<Rightarrow> int" where
  "coord_match c = fst (snd (snd c))"

text \<open>
  The cells of the sweep, in the order in which the three nested \<open>for\<close> loops of
  \<open>run_complete_simulation\<close> start their matches: the \<open>P\<close> values outermost, then the
  \<open>R\<close> values, then \<open>range(n_matches)\<close>.
\<close>

definition sweep_cells :: "int list \<Rightarrow> int list \<Rightarrow> int \<Rightarrow> (int \<times> int) list" where
  "sweep_cells Ps Rs nm = concat (map (\<lambda>P. concat (map (\<lambda>R. replicate (nat nm) (P, R)) Rs)) Ps)"

text \<open>
  The coordinates of a sweep, in output order, when the rounds ran the given numbers of
  steps: a round of \<open>k\<close> steps has the steps \<open>1..k\<close>; the rounds of a match are
  numbered from 1 (\<open>rounds_ids P R m r0 ks\<close> numbers them from \<open>r0 + 1\<close>); the matches,
  each given with its \<open>(P, R)\<close> and the step counts of its rounds, take the identifiers
  after \<open>mid\<close>, one by one.
\<close>

definition round_ids :: "int \<Rightarrow> int \<Rightarrow> int \<Rightarrow> int \<Rightarrow> nat \<Rightarrow> coords list" where
  "round_ids P R m r k = map (\<lambda>s. (P, R, m, r, s)) [1..int k]"

fun rounds_ids :: "int \<Rightarrow> int \<Rightarrow> int \<Rightarrow> int \<Rightarrow> nat list \<Rightarrow> coords list" where
  "rounds_ids P R m r0 [] = []"
| "rounds_ids P R m r0 (k # ks) = round_ids P R m (r0 + 1) k @ rounds_ids P R m (r0 + 1) ks"

definition match_ids :: "int \<Rightarrow> int \<Rightarrow> int \<Rightarrow> nat list \<Rightarrow> coords list" where
  "match_ids P R m ks = rounds_ids P R m 0 ks"

fun sweep_ids :: "int \<Rightarrow> ((int \<times> int) \<times> nat list) list \<Rightarrow> coords list" where
  "sweep_ids mid [] = []"
| "sweep_ids mid (c # cs) =
     match_ids (fst (fst c)) (snd (fst c)) (mid + 1) (snd c) @ sweep_ids (mid + 1) cs"

text \<open>
  The step counts \<open>ks\<close> of the rounds of a match of \<open>P\<close> players and \<open>R\<close> rounds:
  one count per round, which is 0 when \<open>P \<le> 2\<close> and at least 1 when \<open>P \<ge> 3\<close>.
\<close>

definition round_counts_ok :: "int \<times> int \<Rightarrow> nat list \<Rightarrow> bool" where
  "round_counts_ok cell ks \<longleftrightarrow>
     length ks = nat (snd cell)
   \<and> (\<forall>k \<in> set ks. (fst cell \<le> 2 \<longrightarrow> k = 0) \<and> (3 \<le> fst cell \<longrightarrow> 1 \<le> k))"

text \<open>
  A stretch of the sweep took the match counter from \<open>mid\<close> to \<open>mid'\<close> and the two
  lists from \<open>vs\<close>, \<open>rs\<close> to \<open>vs'\<close>, \<open>rs'\<close>: it appended rows whose coordinates
  are those of \<open>sweep_ids mid cs\<close>, the vote rows repeating each coordinate once per
  voter.
\<close>

definition sweep_out ::
  "int \<Rightarrow> VoteRecord list \<Rightarrow> GameResultRecord list \<Rightarrow>
   int \<Rightarrow> VoteRecord list \<Rightarrow> GameResultRecord list \<Rightarrow>
   ((int \<times> int) \<times> nat list) list \<Rightarrow> bool" where
  "sweep_out mid vs rs mid' vs' rs' cs \<longleftrightarrow>
     (\<exists>nv nr. vs' = vs @ nv \<and> rs' = rs @ nr \<and> mid' = mid + int (length cs)
        \<and> map g_ids nr = sweep_ids mid cs
        \<and> remdups_adj (map v_ids nv) = sweep_ids mid cs)"

text \<open>
  Test data: the generator whose \<open>i\<close>-th draw is \<open>i\<close>, and the rows of the sweep
  \<open>P_values = [2, 4]\<close>, \<open>R_values = [2]\<close>, \<open>n_matches = 1\<close> it produces: nothing
  for the match of two players, two rounds of two steps each for the match of four.
\<close>

abbreviation ex_rng_id :: rng where
  "ex_rng_id \<equiv> \<lparr>draws = (\<lambda>i. i), pos = 0\<rparr>"

abbreviation ex_sweep_votes :: "VoteRecord list" where
  "ex_sweep_votes \<equiv>
     [\<lparr>v_P = 4, v_R = 2, v_match = 2, v_round = 1, v_step = 1,
        v_voter = 0, v_target = 1, v_voter_role = ''civil'', v_target_role = ''civil''\<rparr>,
      \<lparr>v_P = 4, v_R = 2, v_match = 2, v_round = 1, v_step = 1,
        v_voter = 1, v_target = 2, v_voter_role = ''civil'', v_target_role = ''impostor''\<rparr>,
      \<lparr>v_P = 4, v_R = 2, v_match = 2, v_round = 1, v_step = 1,
        v_voter = 2, v_target = 3, v_voter_role = ''impostor'', v_target_role = ''civil''\<rparr>,
      \<lparr>v_P = 4, v_R = 2, v_match = 2, v_round = 1, v_step = 1,
        v_voter = 3, v_target = 0, v_voter_role = ''civil'', v_target_role = ''civil''\<rparr>,
      \<lparr>v_P = 4, v_R = 2, v_match = 2, v_round = 1, v_step = 2,
        v_voter = 1, v_target = 2, v_voter_role = ''civil'', v_target_role = ''impostor''\<rparr>,
      \<lparr>v_P = 4, v_R = 2, v_match = 2, v_round = 1, v_step = 2,
        v_voter = 2, v_target = 3, v_voter_role = ''impostor'', v_target_role = ''civil''\<rparr>,
      \<lparr>v_P = 4, v_R = 2, v_match = 2, v_round = 1, v_step = 2,
        v_voter = 3, v_target = 1, v_voter_role = ''civil'', v_target_role = ''civil''\<rparr>,
      \<lparr>v_P = 4, v_R = 2, v_match = 2, v_round = 2, v_step = 1,
        v_voter = 0, v_target = 2, v_voter_role = ''impostor'', v_target_role = ''civil''\<rparr>,
      \<lparr>v_P = 4, v_R = 2, v_match = 2, v_round = 2, v_step = 1,
        v_voter = 1, v_target = 3, v_voter_role = ''civil'', v_target_role = ''civil''\<rparr>,
      \<lparr>v_P = 4, v_R = 2, v_match = 2, v_round = 2, v_step = 1,
        v_voter = 2, v_target = 0, v_voter_role = ''civil'', v_target_role = ''impostor''\<rparr>,
      \<lparr>v_P = 4, v_R = 2, v_match = 2, v_round = 2, v_step = 1,
        v_voter = 3, v_target = 1, v_voter_role = ''civil'', v_target_role = ''civil''\<rparr>,
      \<lparr>v_P = 4, v_R = 2, v_match = 2, v_round = 2, v_step = 2,
        v_voter = 0, v_target = 1, v_voter_role = ''impostor'', v_target_role = ''civil''\<rparr>,
      \<lparr>v_P = 4, v_R = 2, v_match = 2, v_round = 2, v_step = 2,
        v_voter = 1, v_target = 2, v_voter_role = ''civil'', v_target_role = ''civil''\<rparr>,
      \<lparr>v_P = 4, v_R = 2, v_match = 2, v_round = 2, v_step = 2,
        v_voter = 2, v_target = 0, v_voter_role = ''civil'', v_target_role = ''impostor''\<rparr>]"

abbreviation ex_sweep_results :: "GameResultRecord list" where
  "ex_sweep_results \<equiv>
     [\<lparr>g_P = 4, g_R = 2, g_match = 2, g_round = 1, g_step = 1,
        g_eliminated = 0, g_eliminated_role = ''civil'', g_max_votes = 1, g_tie_size = 4, g_impostors_wins = False\<rparr>,
      \<lparr>g_P = 4, g_R = 2, g_match = 2, g_round = 1, g_step = 2,
        g_eliminated = 1, g_eliminated_role = ''civil'', g_max_votes = 1, g_tie_size = 3, g_impostors_wins = True\<rparr>,
      \<lparr>g_P = 4, g_R = 2, g_match = 2, g_round = 2, g_step = 1,
        g_eliminated = 3, g_eliminated_role = ''civil'', g_max_votes = 1, g_tie_size = 4, g_impostors_wins = False\<rparr>,
      \<lparr>g_P = 4, g_R = 2, g_match = 2, g_round = 2, g_step = 2,
        g_eliminated = 1, g_eliminated_role = ''civil'', g_max_votes = 1, g_tie_size = 3, g_impostors_wins = True\<rparr>]"

section \<open>Properties\<close>

lemma rng_choice_Inr:
  "rng_choice a g = Inr (x, g') \<Longrightarrow> a \<noteq> [] \<and> x \<in> set a \<and> g' = g\<lparr>pos := Suc (pos g)\<rparr>"
  by (auto simp: rng_choice_def split: if_splits)

lemma rng_choice_Inl: "rng_choice a g = Inl e \<Longrightarrow> a = [] \<and> e = ChoiceEmpty"
  by (auto simp: rng_choice_def split: if_splits)

lemma rng_choice_ok: "a \<noteq> [] \<Longrightarrow> \<exists>x g'. rng_choice a g = Inr (x, g')"
  by (simp add: rng_choice_def)

lemma choose_targets_loop_Inr:
  "choose_targets_loop alive voters g acc = Inr (ts, g') \<Longrightarrow>
   \<exists>new. ts = acc @ new \<and> list_all2 (\<lambda>v t. t \<in> set alive \<and> t \<noteq> v) voters new"
proof (induction voters arbitrary: g acc)
  case Nil
  then show ?case by simp
next
  case (Cons v voters)
  from Cons.prems obtain t g1 where
    c: "rng_choice (filter (\<lambda>p. p \<noteq> v) alive) g = Inr (t, g1)"
    and r: "choose_targets_loop alive voters g1 (acc @ [t]) = Inr (ts, g')"
    by (auto simp: Let_def split: sum.splits)
  from rng_choice_Inr [OF c] have t: "t \<in> set alive" "t \<noteq> v" by auto
  from Cons.IH [OF r] obtain new where
    "ts = (acc @ [t]) @ new" "list_all2 (\<lambda>v t. t \<in> set alive \<and> t \<noteq> v) voters new"
    by blast
  with t have "ts = acc @ (t # new) \<and> list_all2 (\<lambda>v t. t \<in> set alive \<and> t \<noteq> v) (v # voters) (t # new)"
    by simp
  then show ?case by blast
qed

lemma choose_targets_Inr:
  "choose_targets alive g = Inr (ts, g') \<Longrightarrow> list_all2 (\<lambda>v t. t \<in> set alive \<and> t \<noteq> v) alive ts"
  unfolding choose_targets_def by (drule choose_targets_loop_Inr) simp

lemma choose_targets_loop_Inl:
  "choose_targets_loop alive voters g acc = Inl e \<Longrightarrow>
   e = ChoiceEmpty \<and> (\<exists>v \<in> set voters. filter (\<lambda>p. p \<noteq> v) alive = [])"
proof (induction voters arbitrary: g acc)
  case Nil
  then show ?case by simp
next
  case (Cons v voters)
  show ?case
  proof (cases "rng_choice (filter (\<lambda>p. p \<noteq> v) alive) g")
    case (Inl e')
    with Cons.prems have "e' = e" by (simp add: Let_def)
    with rng_choice_Inl [OF Inl] show ?thesis by simp
  next
    case (Inr r)
    obtain t g1 where "r = (t, g1)" by (cases r)
    with Inr Cons.prems have "choose_targets_loop alive voters g1 (acc @ [t]) = Inl e"
      by (simp add: Let_def)
    from Cons.IH [OF this] show ?thesis by simp
  qed
qed

lemma counter_add_keys: "fst ` set (counter_add kvs k) = insert k (fst ` set kvs)"
  by (induction kvs k rule: counter_add.induct) auto

lemma counter_add_pos: "\<forall>kv \<in> set kvs. 1 \<le> snd kv \<Longrightarrow> \<forall>kv \<in> set (counter_add kvs k). 1 \<le> snd kv"
  by (induction kvs k rule: counter_add.induct) auto

lemma foldl_counter_add_keys: "fst ` set (foldl counter_add kvs xs) = fst ` set kvs \<union> set xs"
  by (induction xs arbitrary: kvs) (auto simp: counter_add_keys)

lemma foldl_counter_add_pos:
  "\<forall>kv \<in> set kvs. 1 \<le> snd kv \<Longrightarrow> \<forall>kv \<in> set (foldl counter_add kvs xs). 1 \<le> snd kv"
proof (induction xs arbitrary: kvs)
  case Nil
  then show ?case by simp
next
  case (Cons x xs)
  from counter_add_pos [OF Cons.prems] have "\<forall>kv\<in>set (counter_add kvs x). 1 \<le> snd kv" .
  from Cons.IH [OF this] show ?case by simp
qed

lemma Counter_keys: "fst ` set (Counter xs) = set xs"
  by (simp add: Counter_def foldl_counter_add_keys)

lemma Counter_pos: "kv \<in> set (Counter xs) \<Longrightarrow> 1 \<le> snd kv"
  using foldl_counter_add_pos [of "[]" xs] by (simp add: Counter_def)

lemma Counter_empty: "Counter xs = [] \<longleftrightarrow> xs = []"
  using Counter_keys [of xs] by (metis image_is_empty set_empty)

lemma foldl_max_ge: "(m::nat) \<le> foldl max m xs"
  by (induction xs arbitrary: m) (auto intro: order_trans [OF max.cobounded1])

lemma foldl_max_mem: "foldl max (m::nat) xs \<in> set (m # xs)"
proof (induction xs arbitrary: m)
  case Nil
  then show ?case by simp
next
  case (Cons x xs)
  from Cons.IH [of "max m x"] show ?case by (auto simp: max_def split: if_splits)
qed

lemma py_max_Inr: "py_max xs = Inr m \<Longrightarrow> m \<in> set xs"
  using foldl_max_mem by (cases xs) auto

lemma py_max_Inl: "py_max xs = Inl e \<Longrightarrow> xs = [] \<and> e = MaxEmpty"
  by (cases xs) auto

lemma pick_eliminated_Inr:
  assumes "pick_eliminated_from_targets ts g = Inr ((e, mv, most), g')"
  shows "e \<in> set most \<and> set most \<subseteq> set ts \<and> 1 \<le> mv \<and> 1 \<le> length most
         \<and> g' = g\<lparr>pos := Suc (pos g)\<rparr>"
proof -
  from assms obtain
    m: "py_max (map snd (Counter ts)) = Inr mv"
    and most: "most = map fst (filter (\<lambda>(player, v). v = mv) (Counter ts))"
    and c: "rng_choice most g = Inr (e, g')"
    by (auto simp: pick_eliminated_from_targets_def Let_def split: sum.splits)
  from rng_choice_Inr [OF c] have e: "most \<noteq> []" "e \<in> set most" "g' = g\<lparr>pos := Suc (pos g)\<rparr>"
    by auto
  from py_max_Inr [OF m] obtain kv where "kv \<in> set (Counter ts)" "snd kv = mv" by auto
  with Counter_pos have mv: "1 \<le> mv" by blast
  have "set most \<subseteq> fst ` set (Counter ts)" unfolding most by auto
  then have sub: "set most \<subseteq> set ts" by (simp add: Counter_keys)
  from e(1) have "1 \<le> length most" by (cases most) auto
  with e mv sub show ?thesis by simp
qed

lemma pick_eliminated_ok:
  assumes "ts \<noteq> []"
  shows "\<exists>r g'. pick_eliminated_from_targets ts g = Inr (r, g')"
proof -
  from assms have ne: "Counter ts \<noteq> []" by (simp add: Counter_empty)
  then obtain mv where m: "py_max (map snd (Counter ts)) = Inr mv"
    by (cases "Counter ts") auto
  from py_max_Inr [OF m] obtain kv where "kv \<in> set (Counter ts)" "snd kv = mv" by auto
  then have "kv \<in> set (filter (\<lambda>(player, v). v = mv) (Counter ts))"
    by (simp add: case_prod_beta)
  then have "filter (\<lambda>(player, v). v = mv) (Counter ts) \<noteq> []"
    by (metis empty_iff empty_set)
  then have "map fst (filter (\<lambda>(player, v). v = mv) (Counter ts)) \<noteq> []" by simp
  from rng_choice_ok [OF this, of g] m show ?thesis
    by (auto simp: pick_eliminated_from_targets_def Let_def)
qed

declare simulate_round_loop.simps [simp del]

lemma choose_targets_length:
  "choose_targets alive g = Inr (ts, g') \<Longrightarrow> length ts = length alive"
  by (drule choose_targets_Inr) (simp add: list_all2_lengthD)

lemma choose_targets_subset:
  "choose_targets alive g = Inr (ts, g') \<Longrightarrow> set ts \<subseteq> set alive"
  by (drule choose_targets_Inr) (auto simp: list_all2_conv_all_nth in_set_conv_nth)

lemma choose_targets_ok:
  assumes "2 \<le> card (set alive)"
  shows "\<exists>ts g'. choose_targets alive g = Inr (ts, g')"
proof (cases "choose_targets alive g")
  case (Inl e)
  then obtain v where v: "filter (\<lambda>p. p \<noteq> v) alive = []"
    unfolding choose_targets_def by (blast dest: choose_targets_loop_Inl)
  then have "set alive \<subseteq> {v}" by (auto simp: filter_empty_conv)
  then have "card (set alive) \<le> card {v}" by (intro card_mono) auto
  with assms show ?thesis by simp
next
  case (Inr r)
  then show ?thesis by (cases r) auto
qed

lemma round_step_Inr:
  assumes "round_step ctx alive sid g vs rs = Inr (alive', sid', g', vs', rs')"
  shows "\<exists>ts g1 e mv most.
           choose_targets alive g = Inr (ts, g1)
         \<and> pick_eliminated_from_targets ts g1 = Inr ((e, mv, most), g')
         \<and> e \<in> set alive \<and> alive' = remove1 e alive \<and> sid' = sid + 1
         \<and> vs' = vs @ map (vote_row (ctx\<lparr>step_id := sid + 1\<rparr>)) (zip alive ts)
         \<and> rs' = rs @ [\<lparr>g_P = ctx_P ctx, g_R = ctx_R ctx, g_match = match_id ctx,
                         g_round = round_id ctx, g_step = sid + 1, g_eliminated = e,
                         g_eliminated_role = role_of e (impostors ctx),
                         g_max_votes = mv, g_tie_size = length most,
                         g_impostors_wins = impostors_win (remove1 e alive) (impostors ctx)\<rparr>]"
  using assms
  by (auto simp: round_step_def Let_def list_remove_def append_votes_rows_def
        append_game_result_row_def split: sum.splits prod.splits if_splits)

lemma round_step_ok:
  assumes "2 \<le> card (set alive)"
  shows "\<exists>r. round_step ctx alive sid g vs rs = Inr r"
proof -
  from choose_targets_ok [OF assms] obtain ts g1 where
    ct: "choose_targets alive g = Inr (ts, g1)" by blast
  from assms have "alive \<noteq> []" by auto
  with choose_targets_length [OF ct] have "ts \<noteq> []" by auto
  from pick_eliminated_ok [OF this] obtain r g2 where
    pe: "pick_eliminated_from_targets ts g1 = Inr (r, g2)" by blast
  obtain e mv most where r: "r = (e, mv, most)" by (cases r)
  from pick_eliminated_Inr [OF pe [unfolded r]] choose_targets_subset [OF ct]
  have "e \<in> set alive" by auto
  with ct pe r show ?thesis
    by (simp add: round_step_def Let_def list_remove_def)
qed

lemma round_running_card:
  assumes "round_running alive imps"
  shows "3 \<le> card (set alive)"
proof -
  have fin: "finite (set alive)" by simp
  have "card (set alive) = card (set alive \<inter> imps) + card (set alive - imps)"
    using card_Int_Diff [OF fin] by (simp add: Int_commute) 
  moreover from assms have "0 < card (set alive \<inter> imps)"
    and "card (set alive \<inter> imps) < card (set alive - imps)"
    by (auto simp: round_running_def impostors_win_def Let_def)
  ultimately show ?thesis by linarith
qed

lemma round_running_length: "round_running alive imps \<Longrightarrow> 3 \<le> length alive"
  using round_running_card [of alive imps] card_length [of alive] by linarith

lemma simulate_round_loop_stop:
  "\<not> round_running alive (impostors ctx) \<Longrightarrow>
   simulate_round_loop ctx alive sid g vs rs = Inr (alive, sid, g, vs, rs)"
  by (subst simulate_round_loop.simps) simp

lemma simulate_round_loop_step:
  "round_running alive (impostors ctx) \<Longrightarrow>
   round_step ctx alive sid g vs rs = Inr (alive', sid', g', vs', rs') \<Longrightarrow>
   simulate_round_loop ctx alive sid g vs rs = simulate_round_loop ctx alive' sid' g' vs' rs'"
  by (subst simulate_round_loop.simps) simp

lemma round_loop_induct [consumes 1, case_names stop step]:
  assumes run: "simulate_round_loop ctx alive sid g vs rs = Inr fin"
    and stop: "\<And>alive sid g vs rs. \<not> round_running alive (impostors ctx) \<Longrightarrow>
                 Q alive sid g vs rs (alive, sid, g, vs, rs)"
    and step: "\<And>alive sid g vs rs alive' sid' g' vs' rs' fin.
                 round_running alive (impostors ctx) \<Longrightarrow>
                 round_step ctx alive sid g vs rs = Inr (alive', sid', g', vs', rs') \<Longrightarrow>
                 simulate_round_loop ctx alive' sid' g' vs' rs' = Inr fin \<Longrightarrow>
                 Q alive' sid' g' vs' rs' fin \<Longrightarrow> Q alive sid g vs rs fin"
  shows "Q alive sid g vs rs fin"
  using assms
proof (induction ctx alive sid g vs rs rule: simulate_round_loop.induct)
  case (1 ctx alive sid g vs rs)
  show ?case
  proof (cases "round_running alive (impostors ctx)")
    case False
    with "1.prems" (1) have "fin = (alive, sid, g, vs, rs)"
      by (simp add: simulate_round_loop_stop)
    with False "1.prems" (2) show ?thesis by simp
  next
    case True
    from round_step_ok [of alive ctx sid g vs rs] round_running_card [OF True]
    obtain r where r: "round_step ctx alive sid g vs rs = Inr r" by auto
    obtain alive' sid' g' vs' rs' where r': "r = (alive', sid', g', vs', rs')"
      by (cases r)
    from True r r' "1.prems" (1)
    have next_run: "simulate_round_loop ctx alive' sid' g' vs' rs' = Inr fin"
      by (simp add: simulate_round_loop_step)
    have "Q alive' sid' g' vs' rs' fin"
      by (rule "1.IH" [OF True r r' [symmetric] refl refl refl next_run "1.prems" (2,3)])
    with True r r' next_run show ?thesis using "1.prems" (3) by blast
  qed
qed

lemma simulate_round_loop_total:
  "\<exists>fin. simulate_round_loop ctx alive sid g vs rs = Inr fin"
proof (induction ctx alive sid g vs rs rule: simulate_round_loop.induct)
  case (1 ctx alive sid g vs rs)
  show ?case
  proof (cases "round_running alive (impostors ctx)")
    case False
    then show ?thesis by (simp add: simulate_round_loop_stop)
  next
    case True
    from round_step_ok [of alive ctx sid g vs rs] round_running_card [OF True]
    obtain r where r: "round_step ctx alive sid g vs rs = Inr r" by auto
    obtain alive' sid' g' vs' rs' where r': "r = (alive', sid', g', vs', rs')"
      by (cases r)
    from "1.IH" [OF True r r' [symmetric] refl refl refl]
    show ?thesis using True r r' by (simp add: simulate_round_loop_step)
  qed
qed

lemma rows_round_loop:
  assumes run: "simulate_round_loop ctx alive sid g vs rs = Inr (alive', sid', g', vs', rs')"
    and step: "\<And>ctx alive sid g vs rs alive' sid' g' vs' rs'.
           round_step ctx alive sid g vs rs = Inr (alive', sid', g', vs', rs') \<Longrightarrow>
           list_all Pv vs \<Longrightarrow> list_all Pr rs \<Longrightarrow> list_all Pv vs' \<and> list_all Pr rs'"
    and init: "list_all Pv vs" "list_all Pr rs"
  shows "list_all Pv vs' \<and> list_all Pr rs'"
proof -
  have "list_all Pv vs \<longrightarrow> list_all Pr rs \<longrightarrow>
        list_all Pv (fst (snd (snd (snd (alive', sid', g', vs', rs'))))) \<and>
        list_all Pr (snd (snd (snd (snd (alive', sid', g', vs', rs')))))"
    using run
  proof (induction rule: round_loop_induct)
    case (stop alive sid g vs rs)
    then show ?case by simp
  next
    case (step alive sid g vs rs alive' sid' g' vs' rs' fin)
    from assms(2) [OF step(2)] step(4) show ?case by blast
  qed
  with init show ?thesis by simp
qed

lemma rows_simulate_round:
  assumes run: "simulate_round ctx players g vs rs = Inr (g', vs', rs')"
    and step: "\<And>ctx alive sid g vs rs alive' sid' g' vs' rs'.
           round_step ctx alive sid g vs rs = Inr (alive', sid', g', vs', rs') \<Longrightarrow>
           list_all Pv vs \<Longrightarrow> list_all Pr rs \<Longrightarrow> list_all Pv vs' \<and> list_all Pr rs'"
    and init: "list_all Pv vs" "list_all Pr rs"
  shows "list_all Pv vs' \<and> list_all Pr rs'"
proof -
  from run obtain alive' sid' where
    "simulate_round_loop ctx players 0 g vs rs = Inr (alive', sid', g', vs', rs')"
    by (auto simp: simulate_round_def split: sum.splits)
  from rows_round_loop [of ctx players 0 g vs rs alive' sid' g' vs' rs' Pv Pr, OF this step init]
  show ?thesis by simp
qed

lemma rows_match_loop:
  assumes step: "\<And>ctx alive sid g vs rs alive' sid' g' vs' rs'.
           round_step ctx alive sid g vs rs = Inr (alive', sid', g', vs', rs') \<Longrightarrow>
           list_all Pv vs \<Longrightarrow> list_all Pr rs \<Longrightarrow> list_all Pv vs' \<and> list_all Pr rs'"
  shows "simulate_match_loop P R mid players rids g vs rs = Inr (g', vs', rs') \<Longrightarrow>
         list_all Pv vs \<Longrightarrow> list_all Pr rs \<Longrightarrow> list_all Pv vs' \<and> list_all Pr rs'"
proof (induction rids arbitrary: g vs rs)
  case Nil
  then show ?case by simp
next
  case (Cons rid rids)
  from Cons.prems(1) obtain imp g1 g2 vs2 rs2 where
    r: "simulate_round \<lparr>ctx_P = P, ctx_R = R, match_id = mid, round_id = rid,
                           step_id = 0, impostors = {imp}\<rparr> players g1 vs rs = Inr (g2, vs2, rs2)"
    and rest: "simulate_match_loop P R mid players rids g2 vs2 rs2 = Inr (g', vs', rs')"
    by (auto simp: Let_def split: sum.splits)
  from rows_simulate_round [of _ players g1 vs rs g2 vs2 rs2 Pv Pr, OF r step Cons.prems(2,3)]
  have "list_all Pv vs2" "list_all Pr rs2" by simp_all
  from Cons.IH [OF rest this] show ?case .
qed

lemma rows_replicate_loop:
  assumes step: "\<And>ctx alive sid g vs rs alive' sid' g' vs' rs'.
           round_step ctx alive sid g vs rs = Inr (alive', sid', g', vs', rs') \<Longrightarrow>
           list_all Pv vs \<Longrightarrow> list_all Pr rs \<Longrightarrow> list_all Pv vs' \<and> list_all Pr rs'"
  shows "replicate_loop n P R mid g vs rs = Inr (mid', g', vs', rs') \<Longrightarrow>
         list_all Pv vs \<Longrightarrow> list_all Pr rs \<Longrightarrow> list_all Pv vs' \<and> list_all Pr rs'"
proof (induction n arbitrary: mid g vs rs)
  case 0
  then show ?case by simp
next
  case (Suc n)
  from Suc.prems(1) obtain g2 vs2 rs2 where
    m: "simulate_match P R (mid + 1) g vs rs = Inr (g2, vs2, rs2)"
    and rest: "replicate_loop n P R (mid + 1) g2 vs2 rs2 = Inr (mid', g', vs', rs')"
    by (auto simp: Let_def split: sum.splits)
  from rows_match_loop [of Pv Pr P R "mid + 1" "[0..P - 1]" "[1..R]" g vs rs g2 vs2 rs2,
      OF step m [unfolded simulate_match_def] Suc.prems(2,3)]
  have "list_all Pv vs2" "list_all Pr rs2" by simp_all
  from Suc.IH [OF rest this] show ?case .
qed

lemma rows_R_loop:
  assumes step: "\<And>ctx alive sid g vs rs alive' sid' g' vs' rs'.
           round_step ctx alive sid g vs rs = Inr (alive', sid', g', vs', rs') \<Longrightarrow>
           list_all Pv vs \<Longrightarrow> list_all Pr rs \<Longrightarrow> list_all Pv vs' \<and> list_all Pr rs'"
  shows "R_loop Rs nm P mid g vs rs = Inr (mid', g', vs', rs') \<Longrightarrow>
         list_all Pv vs \<Longrightarrow> list_all Pr rs \<Longrightarrow> list_all Pv vs' \<and> list_all Pr rs'"
proof (induction Rs arbitrary: mid g vs rs)
  case Nil
  then show ?case by simp
next
  case (Cons R Rs)
  from Cons.prems(1) obtain mid2 g2 vs2 rs2 where
    m: "replicate_loop (nat nm) P R mid g vs rs = Inr (mid2, g2, vs2, rs2)"
    and rest: "R_loop Rs nm P mid2 g2 vs2 rs2 = Inr (mid', g', vs', rs')"
    by (auto split: sum.splits)
  from rows_replicate_loop [of Pv Pr "nat nm" P R mid g vs rs mid2 g2 vs2 rs2,
      OF step m Cons.prems(2,3)]
  have "list_all Pv vs2" "list_all Pr rs2" by simp_all
  from Cons.IH [OF rest this] show ?case .
qed

lemma rows_P_loop:
  assumes step: "\<And>ctx alive sid g vs rs alive' sid' g' vs' rs'.
           round_step ctx alive sid g vs rs = Inr (alive', sid', g', vs', rs') \<Longrightarrow>
           list_all Pv vs \<Longrightarrow> list_all Pr rs \<Longrightarrow> list_all Pv vs' \<and> list_all Pr rs'"
  shows "P_loop Ps Rs nm mid g vs rs = Inr (mid', g', vs', rs') \<Longrightarrow>
         list_all Pv vs \<Longrightarrow> list_all Pr rs \<Longrightarrow> list_all Pv vs' \<and> list_all Pr rs'"
proof (induction Ps arbitrary: mid g vs rs)
  case Nil
  then show ?case by simp
next
  case (Cons P Ps)
  from Cons.prems(1) obtain mid2 g2 vs2 rs2 where
    m: "R_loop Rs nm P mid g vs rs = Inr (mid2, g2, vs2, rs2)"
    and rest: "P_loop Ps Rs nm mid2 g2 vs2 rs2 = Inr (mid', g', vs', rs')"
    by (auto split: sum.splits)
  from rows_R_loop [of Pv Pr Rs nm P mid g vs rs mid2 g2 vs2 rs2, OF step m Cons.prems(2,3)]
  have "list_all Pv vs2" "list_all Pr rs2" by simp_all
  from Cons.IH [OF rest this] show ?case .
qed

lemma rows_run:
  assumes run: "run_complete_simulation default_rng params seed = Inr (votes, results)"
    and step: "\<And>ctx alive sid g vs rs alive' sid' g' vs' rs'.
           round_step ctx alive sid g vs rs = Inr (alive', sid', g', vs', rs') \<Longrightarrow>
           list_all Pv vs \<Longrightarrow> list_all Pr rs \<Longrightarrow> list_all Pv vs' \<and> list_all Pr rs'"
  shows "list_all Pv votes \<and> list_all Pr results"
proof -
  from run obtain mid' g' where
    "P_loop (P_values params) (R_values params) (n_matches params) 0 (default_rng seed) [] []
       = Inr (mid', g', votes, results)"
    by (auto simp: run_complete_simulation_def Let_def split: sum.splits if_splits)
  from rows_P_loop [of Pv Pr, OF step this] show ?thesis by simp
qed

lemma round_step_no_self_vote:
  assumes "round_step ctx alive sid g vs rs = Inr (alive', sid', g', vs', rs')"
    and "list_all (\<lambda>v. v_voter v \<noteq> v_target v) vs" 
  shows "list_all (\<lambda>v. v_voter v \<noteq> v_target v) vs'"
proof -
  from round_step_Inr [OF assms(1)] obtain ts g1 where
    ct: "choose_targets alive g = Inr (ts, g1)"
    and vs': "vs' = vs @ map (vote_row (ctx\<lparr>step_id := sid + 1\<rparr>)) (zip alive ts)"
    by blast
  from choose_targets_Inr [OF ct] have "\<forall>(v, t) \<in> set (zip alive ts). t \<noteq> v"
    by (auto simp: list_all2_iff)
  then have "list_all (\<lambda>v. v_voter v \<noteq> v_target v)
               (map (vote_row (ctx\<lparr>step_id := sid + 1\<rparr>)) (zip alive ts))"
    by (auto simp: list_all_iff vote_row_def)
  with assms(2) vs' show ?thesis by simp
qed

text \<open>
  Claim C9. Every vote row of a completed run has a voter that differs from its target:
  the target is drawn from the alive pool with the voter filtered out.
\<close>

theorem no_self_vote:
  assumes "run_complete_simulation default_rng params seed = Inr (votes, results)"
  shows "\<forall>v \<in> set votes. v_voter v \<noteq> v_target v"
proof -
  have "list_all (\<lambda>v. v_voter v \<noteq> v_target v) votes \<and> list_all (\<lambda>r. True) results"
  proof (rule rows_run [OF assms])
    fix ctx alive sid g and vs :: "VoteRecord list" and rs :: "GameResultRecord list"
      and alive' sid' g' vs' rs'
    assume "round_step ctx alive sid g vs rs = Inr (alive', sid', g', vs', rs')"
      and "list_all (\<lambda>v. v_voter v \<noteq> v_target v) vs"
    then have "list_all (\<lambda>v. v_voter v \<noteq> v_target v) vs'"
      by (rule round_step_no_self_vote)
    moreover have "list_all (\<lambda>r. True) rs'" by (simp add: list_all_iff)
    ultimately show "list_all (\<lambda>v. v_voter v \<noteq> v_target v) vs' \<and> list_all (\<lambda>r. True) rs'" ..
  qed
  then show ?thesis by (simp add: list_all_iff)
qed


lemma run_example:
  "run_complete_simulation (\<lambda>s. \<lparr>draws = (\<lambda>i. 0), pos = 0\<rparr>)
     \<lparr>P_values = [3], R_values = [1], n_matches = 1, alpha = 0\<rparr> 42
   = Inr ([\<lparr>v_P = 3, v_R = 1, v_match = 1, v_round = 1, v_step = 1, v_voter = 0,
             v_target = 1, v_voter_role = ''impostor'', v_target_role = ''civil''\<rparr>,
           \<lparr>v_P = 3, v_R = 1, v_match = 1, v_round = 1, v_step = 1, v_voter = 1,
             v_target = 0, v_voter_role = ''civil'', v_target_role = ''impostor''\<rparr>,
           \<lparr>v_P = 3, v_R = 1, v_match = 1, v_round = 1, v_step = 1, v_voter = 2,
             v_target = 0, v_voter_role = ''civil'', v_target_role = ''impostor''\<rparr>],
          [\<lparr>g_P = 3, g_R = 1, g_match = 1, g_round = 1, g_step = 1,
             g_eliminated = 0, g_eliminated_role = ''impostor'',
             g_max_votes = 2, g_tie_size = 1, g_impostors_wins = False\<rparr>])"
  by code_simp

theorem no_self_vote_witness:
  "run_complete_simulation (\<lambda>s. \<lparr>draws = (\<lambda>i. 0), pos = 0\<rparr>)
     \<lparr>P_values = [3], R_values = [1], n_matches = 1, alpha = 0\<rparr> 42
   = Inr ([\<lparr>v_P = 3, v_R = 1, v_match = 1, v_round = 1, v_step = 1, v_voter = 0,
             v_target = 1, v_voter_role = ''impostor'', v_target_role = ''civil''\<rparr>,
           \<lparr>v_P = 3, v_R = 1, v_match = 1, v_round = 1, v_step = 1, v_voter = 1,
             v_target = 0, v_voter_role = ''civil'', v_target_role = ''impostor''\<rparr>,
           \<lparr>v_P = 3, v_R = 1, v_match = 1, v_round = 1, v_step = 1, v_voter = 2,
             v_target = 0, v_voter_role = ''civil'', v_target_role = ''impostor''\<rparr>],
          [\<lparr>g_P = 3, g_R = 1, g_match = 1, g_round = 1, g_step = 1,
             g_eliminated = 0, g_eliminated_role = ''impostor'',
             g_max_votes = 2, g_tie_size = 1, g_impostors_wins = False\<rparr>])
   \<and> list_all (\<lambda>v. v_voter v \<noteq> v_target v)
         [\<lparr>v_P = 3, v_R = 1, v_match = 1, v_round = 1, v_step = 1, v_voter = 0,
             v_target = 1, v_voter_role = ''impostor'', v_target_role = ''civil''\<rparr>,
           \<lparr>v_P = 3, v_R = 1, v_match = 1, v_round = 1, v_step = 1, v_voter = 1,
             v_target = 0, v_voter_role = ''civil'', v_target_role = ''impostor''\<rparr>,
           \<lparr>v_P = 3, v_R = 1, v_match = 1, v_round = 1, v_step = 1, v_voter = 2,
             v_target = 0, v_voter_role = ''civil'', v_target_role = ''impostor''\<rparr>]"
  using no_self_vote [OF run_example] run_example unfolding list_all_iff by blast

lemma pick_eliminated_Inl:
  "pick_eliminated_from_targets ts g = Inl e \<Longrightarrow> e = MaxEmpty \<or> e = ChoiceEmpty"
  by (auto simp: pick_eliminated_from_targets_def Let_def split: sum.splits
        dest: py_max_Inl rng_choice_Inl)

lemma choose_targets_Inl: "choose_targets alive g = Inl e \<Longrightarrow> e = ChoiceEmpty"
  unfolding choose_targets_def by (blast dest: choose_targets_loop_Inl)

lemma round_step_result_row:
  assumes "round_step ctx alive sid g vs rs = Inr (alive', sid', g', vs', rs')"
    and "list_all (\<lambda>r. 1 \<le> g_max_votes r \<and> 1 \<le> g_tie_size r) rs"
  shows "list_all (\<lambda>r. 1 \<le> g_max_votes r \<and> 1 \<le> g_tie_size r) rs'"
proof -
  from round_step_Inr [OF assms(1)] obtain ts g1 e mv most where
    pe: "pick_eliminated_from_targets ts g1 = Inr ((e, mv, most), g')"
    and rs': "rs' = rs @ [\<lparr>g_P = ctx_P ctx, g_R = ctx_R ctx, g_match = match_id ctx,
                         g_round = round_id ctx, g_step = sid + 1, g_eliminated = e,
                         g_eliminated_role = role_of e (impostors ctx),
                         g_max_votes = mv, g_tie_size = length most,
                         g_impostors_wins = impostors_win (remove1 e alive) (impostors ctx)\<rparr>]"
    by blast
  from pick_eliminated_Inr [OF pe] assms(2) show ?thesis unfolding rs' by simp
qed

text \<open>
  Claim C10. In any step the sampled targets are alive players, the eliminated player is
  one of the most voted targets and hence alive, so \<open>list.remove\<close> succeeds and the
  step never raises from it; every result row of a completed run has \<open>max_votes\<close> and
  \<open>tie_size\<close> of at least 1.
\<close>

theorem eliminated_alive_counts_positive:
  assumes ct: "choose_targets players_alive g = Inr (targets, g1)"
    and pe: "pick_eliminated_from_targets targets g1
               = Inr ((eliminated, max_votes, most_voted), g2)"
    and run: "run_complete_simulation default_rng params seed = Inr (votes, results)"
  shows "set targets \<subseteq> set players_alive
       \<and> eliminated \<in> set most_voted \<and> set most_voted \<subseteq> set targets
       \<and> eliminated \<in> set players_alive
       \<and> list_remove players_alive eliminated = Inr (remove1 eliminated players_alive)
       \<and> round_step ctx players_alive sid g vs rs \<noteq> Inl RemoveMissing
       \<and> (\<forall>r \<in> set results. 1 \<le> g_max_votes r \<and> 1 \<le> g_tie_size r)"
proof -
  have sub: "set targets \<subseteq> set players_alive" by (rule choose_targets_subset [OF ct])
  from pick_eliminated_Inr [OF pe]
  have el: "eliminated \<in> set most_voted" "set most_voted \<subseteq> set targets" by simp_all
  with sub have mem: "eliminated \<in> set players_alive" by blast
  then have rem: "list_remove players_alive eliminated = Inr (remove1 eliminated players_alive)"
    by (simp add: list_remove_def)
  from ct pe rem have "\<exists>r. round_step ctx players_alive sid g vs rs = Inr r"
    by (simp add: round_step_def Let_def)
  then have ne: "round_step ctx players_alive sid g vs rs \<noteq> Inl RemoveMissing" by auto
  have "list_all (\<lambda>v. True) votes
      \<and> list_all (\<lambda>r. 1 \<le> g_max_votes r \<and> 1 \<le> g_tie_size r) results"
  proof (rule rows_run [OF run])
    fix ctx alive sid g and vs :: "VoteRecord list" and rs :: "GameResultRecord list"
      and alive' sid' g' vs' rs'
    assume "round_step ctx alive sid g vs rs = Inr (alive', sid', g', vs', rs')"
      and "list_all (\<lambda>r. 1 \<le> g_max_votes r \<and> 1 \<le> g_tie_size r) rs"
    then have "list_all (\<lambda>r. 1 \<le> g_max_votes r \<and> 1 \<le> g_tie_size r) rs'"
      by (rule round_step_result_row)
    moreover have "list_all (\<lambda>v. True) vs'" by (simp add: list_all_iff)
    ultimately show "list_all (\<lambda>v. True) vs'
      \<and> list_all (\<lambda>r. 1 \<le> g_max_votes r \<and> 1 \<le> g_tie_size r) rs'" by simp
  qed
  then have "\<forall>r \<in> set results. 1 \<le> g_max_votes r \<and> 1 \<le> g_tie_size r"
    by (simp add: list_all_iff)
  with sub el mem rem ne show ?thesis by blast
qed

lemma choose_targets_example:
  "choose_targets [0, 1, 2] \<lparr>draws = (\<lambda>i. 0), pos = 1\<rparr>
     = Inr ([1, 0, 0], \<lparr>draws = (\<lambda>i. 0), pos = 4\<rparr>)"
  by (simp add: choose_targets_def rng_choice_def)

lemma pick_eliminated_example:
  "pick_eliminated_from_targets [1, 0, 0] \<lparr>draws = (\<lambda>i. 0), pos = 4\<rparr>
     = Inr ((0, 2, [0]), \<lparr>draws = (\<lambda>i. 0), pos = 5\<rparr>)"
  by (simp add: pick_eliminated_from_targets_def Counter_def rng_choice_def)

theorem eliminated_alive_counts_positive_witness:
  "choose_targets [0, 1, 2] \<lparr>draws = (\<lambda>i. 0), pos = 1\<rparr>
     = Inr ([1, 0, 0], \<lparr>draws = (\<lambda>i. 0), pos = 4\<rparr>)
   \<and> pick_eliminated_from_targets [1, 0, 0] \<lparr>draws = (\<lambda>i. 0), pos = 4\<rparr>
     = Inr ((0, 2, [0]), \<lparr>draws = (\<lambda>i. 0), pos = 5\<rparr>)
   \<and> (\<exists>votes results.
        run_complete_simulation (\<lambda>s. \<lparr>draws = (\<lambda>i. 0), pos = 0\<rparr>)
          \<lparr>P_values = [3], R_values = [1], n_matches = 1, alpha = 0\<rparr> 42 = Inr (votes, results)
        \<and> results \<noteq> []
        \<and> (\<forall>r \<in> set results. 1 \<le> g_max_votes r \<and> 1 \<le> g_tie_size r))
   \<and> list_remove [0, 1, 2] 0 = Inr [1, 2]"
  using eliminated_alive_counts_positive
          [OF choose_targets_example pick_eliminated_example run_example]
        choose_targets_example pick_eliminated_example run_example
  by simp

lemma round_loop_induct5 [consumes 1, case_names stop step]:
  assumes run: "simulate_round_loop ctx alive sid g vs rs = Inr (fa, fs, fg, fv, fr)"
    and stop: "\<not> round_running fa (impostors ctx) \<Longrightarrow> Q fa fs fg fv fr"
    and step: "\<And>alive sid g vs rs alive' sid' g' vs' rs'.
                 round_running alive (impostors ctx) \<Longrightarrow>
                 round_step ctx alive sid g vs rs = Inr (alive', sid', g', vs', rs') \<Longrightarrow>
                 simulate_round_loop ctx alive' sid' g' vs' rs' = Inr (fa, fs, fg, fv, fr) \<Longrightarrow>
                 Q alive' sid' g' vs' rs' \<Longrightarrow> Q alive sid g vs rs"
  shows "Q alive sid g vs rs"
proof -
  have "(fa, fs, fg, fv, fr) = (fa, fs, fg, fv, fr) \<longrightarrow> Q alive sid g vs rs"
  proof (rule round_loop_induct
      [where Q = "\<lambda>a s g v r fin. fin = (fa, fs, fg, fv, fr) \<longrightarrow> Q a s g v r", OF run])
    fix alive sid g vs rs
    assume "\<not> round_running alive (impostors ctx)"
    with stop show "(alive, sid, g, vs, rs) = (fa, fs, fg, fv, fr) \<longrightarrow> Q alive sid g vs rs"
      by auto
  next
    fix alive sid g vs rs alive' sid' g' vs' rs' fin
    assume a: "round_running alive (impostors ctx)"
      "round_step ctx alive sid g vs rs = Inr (alive', sid', g', vs', rs')"
      "simulate_round_loop ctx alive' sid' g' vs' rs' = Inr fin"
      "fin = (fa, fs, fg, fv, fr) \<longrightarrow> Q alive' sid' g' vs' rs'"
    show "fin = (fa, fs, fg, fv, fr) \<longrightarrow> Q alive sid g vs rs"
    proof
      assume "fin = (fa, fs, fg, fv, fr)"
      with a step show "Q alive sid g vs rs" by blast
    qed
  qed
  then show ?thesis by simp
qed

lemma alive_after_0 [simp]: "alive_after players rows 0 = players"
  by (simp add: alive_after_def)

lemma alive_after_Cons [simp]:
  "alive_after players (row # rows) (Suc j)
     = alive_after (remove1 (g_eliminated row) players) rows j"
  by (simp add: alive_after_def)

lemma round_trace_Nil: "round_trace imps alive sid [] []"
  by (simp add: round_trace_def)

lemma round_trace_Cons:
  assumes run: "round_running alive imps"
    and e: "g_eliminated row \<in> set alive"
    and st: "g_step row = sid + 1"
    and fl: "g_impostors_wins row = impostors_win (remove1 (g_eliminated row) alive) imps"
    and vo: "map v_voter rows = alive"
    and vs: "\<forall>v \<in> set rows. v_step v = sid + 1"
    and rest: "round_trace imps (remove1 (g_eliminated row) alive) (sid + 1) nv nr"
  shows "round_trace imps alive sid (rows @ nv) (row # nr)"
proof -
  from rest have later: "\<forall>v \<in> set nv. sid + 1 < v_step v"
    by (simp add: round_trace_def)
  have f0: "filter (\<lambda>v. v_step v = sid + 1) rows = rows" using vs by simp
  have f0': "filter (\<lambda>v. v_step v = sid + 1) nv = []"
    using later by (auto simp: filter_empty_conv)
  have fj: "filter (\<lambda>v. v_step v = sid + int (Suc j) + 1) rows = []" for j
    using vs by (auto simp: filter_empty_conv)
  from rest have upper: "\<forall>v \<in> set nv. v_step v \<le> sid + 1 + int (length nr)"
    by (simp add: round_trace_def)
  have steps: "\<forall>v \<in> set (rows @ nv).
                 sid < v_step v \<and> v_step v \<le> sid + int (length (row # nr))"
    using vs later upper by auto
  have "g_step ((row # nr) ! j) = sid + int j + 1
      \<and> round_running (alive_after alive (row # nr) j) imps
      \<and> g_eliminated ((row # nr) ! j) \<in> set (alive_after alive (row # nr) j)
      \<and> g_impostors_wins ((row # nr) ! j)
          = impostors_win (alive_after alive (row # nr) (Suc j)) imps
      \<and> map v_voter (filter (\<lambda>v. v_step v = sid + int j + 1) (rows @ nv))
          = alive_after alive (row # nr) j"
    if j: "j < length (row # nr)" for j
  proof (cases j)
    case 0
    with run e st fl vo f0 f0' show ?thesis by simp
  next
    case (Suc k)
    with j have k: "k < length nr" by simp
    with rest have
      "g_step (nr ! k) = sid + 1 + int k + 1"
      "round_running (alive_after (remove1 (g_eliminated row) alive) nr k) imps"
      "g_eliminated (nr ! k) \<in> set (alive_after (remove1 (g_eliminated row) alive) nr k)"
      "g_impostors_wins (nr ! k)
          = impostors_win (alive_after (remove1 (g_eliminated row) alive) nr (Suc k)) imps"
      "map v_voter (filter (\<lambda>v. v_step v = sid + 1 + int k + 1) nv)
          = alive_after (remove1 (g_eliminated row) alive) nr k"
      by (simp_all add: round_trace_def)
    moreover have "sid + 1 + int k + 1 = sid + int (Suc k) + 1" by simp
    ultimately show ?thesis using fj [of k] unfolding Suc by simp
  qed
  with steps show ?thesis unfolding round_trace_def by blast
qed

lemma round_step_rows:
  assumes "round_step ctx alive sid g vs rs = Inr (alive', sid', g', vs', rs')"
  shows "\<exists>rows row. vs' = vs @ rows \<and> rs' = rs @ [row] \<and> sid' = sid + 1
           \<and> g_eliminated row \<in> set alive \<and> alive' = remove1 (g_eliminated row) alive
           \<and> g_step row = sid + 1
           \<and> g_impostors_wins row = impostors_win alive' (impostors ctx)
           \<and> map v_voter rows = alive \<and> (\<forall>v \<in> set rows. v_step v = sid + 1)"
proof -
  from round_step_Inr [OF assms] obtain ts g1 e mv most where
    ct: "choose_targets alive g = Inr (ts, g1)"
    and pe: "pick_eliminated_from_targets ts g1 = Inr ((e, mv, most), g')"
    and e: "e \<in> set alive" "alive' = remove1 e alive" "sid' = sid + 1"
    and vs': "vs' = vs @ map (vote_row (ctx\<lparr>step_id := sid + 1\<rparr>)) (zip alive ts)"
    and rs': "rs' = rs @ [\<lparr>g_P = ctx_P ctx, g_R = ctx_R ctx, g_match = match_id ctx,
                         g_round = round_id ctx, g_step = sid + 1, g_eliminated = e,
                         g_eliminated_role = role_of e (impostors ctx),
                         g_max_votes = mv, g_tie_size = length most,
                         g_impostors_wins = impostors_win (remove1 e alive) (impostors ctx)\<rparr>]"
    by blast
  have len: "length ts = length alive" by (rule choose_targets_length [OF ct])
  have "map v_voter (map (vote_row (ctx\<lparr>step_id := sid + 1\<rparr>)) (zip alive ts))
          = map fst (zip alive ts)"
    by (simp add: vote_row_def comp_def)
  also have "\<dots> = alive" using len by simp
  finally have vo: "map v_voter (map (vote_row (ctx\<lparr>step_id := sid + 1\<rparr>)) (zip alive ts))
          = alive" .
  have st: "\<forall>v \<in> set (map (vote_row (ctx\<lparr>step_id := sid + 1\<rparr>)) (zip alive ts)).
              v_step v = sid + 1"
    by (simp add: vote_row_def)
  let ?rows = "map (vote_row (ctx\<lparr>step_id := sid + 1\<rparr>)) (zip alive ts)"
  let ?row = "\<lparr>g_P = ctx_P ctx, g_R = ctx_R ctx, g_match = match_id ctx,
                         g_round = round_id ctx, g_step = sid + 1, g_eliminated = e,
                         g_eliminated_role = role_of e (impostors ctx),
                         g_max_votes = mv, g_tie_size = length most,
                         g_impostors_wins = impostors_win (remove1 e alive) (impostors ctx)\<rparr>"
  have "vs' = vs @ ?rows \<and> rs' = rs @ [?row] \<and> sid' = sid + 1
           \<and> g_eliminated ?row \<in> set alive \<and> alive' = remove1 (g_eliminated ?row) alive
           \<and> g_step ?row = sid + 1
           \<and> g_impostors_wins ?row = impostors_win alive' (impostors ctx)
           \<and> map v_voter ?rows = alive \<and> (\<forall>v \<in> set ?rows. v_step v = sid + 1)"
    using e vs' rs' vo st by simp
  then show ?thesis by blast
qed

lemma simulate_round_loop_trace:
  assumes "simulate_round_loop ctx alive sid g vs rs = Inr (fa, fs, fg, fv, fr)"
  shows "\<exists>nv nr. fv = vs @ nv \<and> fr = rs @ nr
           \<and> fa = alive_after alive nr (length nr) \<and> fs = sid + int (length nr)
           \<and> \<not> round_running fa (impostors ctx)
           \<and> round_trace (impostors ctx) alive sid nv nr"
  using assms
proof (induction alive sid g vs rs rule: round_loop_induct5)
  case stop
  then have "fv = fv @ [] \<and> fr = fr @ []
           \<and> fa = alive_after fa [] (length ([] :: GameResultRecord list))
           \<and> fs = fs + int (length ([] :: GameResultRecord list))
           \<and> \<not> round_running fa (impostors ctx)
           \<and> round_trace (impostors ctx) fa fs [] []"
    by (simp add: round_trace_Nil)
  then show ?case by blast
next
  case (step alive sid g vs rs alive' sid' g' vs' rs')
  from round_step_rows [OF step(2)] obtain rows row where
    s: "vs' = vs @ rows" "rs' = rs @ [row]" "sid' = sid + 1"
      "g_eliminated row \<in> set alive" "alive' = remove1 (g_eliminated row) alive"
      "g_step row = sid + 1"
      "g_impostors_wins row = impostors_win alive' (impostors ctx)"
      "map v_voter rows = alive" "\<forall>v \<in> set rows. v_step v = sid + 1"
    by blast
  from step(4) obtain nv nr where
    t: "fv = vs' @ nv" "fr = rs' @ nr"
      "fa = alive_after alive' nr (length nr)" "fs = sid' + int (length nr)"
      "\<not> round_running fa (impostors ctx)"
      "round_trace (impostors ctx) alive' sid' nv nr"
    by blast
  have tr: "round_trace (impostors ctx) alive sid (rows @ nv) (row # nr)"
    using step(1) s(4) s(6) s(7) [unfolded s(5)] s(8) s(9) t(6) [unfolded s(5) s(3)]
    by (rule round_trace_Cons)
  have "fv = vs @ (rows @ nv) \<and> fr = rs @ (row # nr)
           \<and> fa = alive_after alive (row # nr) (length (row # nr))
           \<and> fs = sid + int (length (row # nr))
           \<and> \<not> round_running fa (impostors ctx)
           \<and> round_trace (impostors ctx) alive sid (rows @ nv) (row # nr)"
    using s t tr by simp
  then show ?case by blast
qed

lemma alive_after_Suc:
  "j < length nr \<Longrightarrow>
   alive_after players nr (Suc j) = remove1 (g_eliminated (nr ! j)) (alive_after players nr j)"
  by (simp add: alive_after_def take_Suc_conv_app_nth)

lemma simulate_round_trace:
  assumes "simulate_round ctx players g vs rs = Inr (g', vs', rs')"
  shows "\<exists>nv nr. vs' = vs @ nv \<and> rs' = rs @ nr
           \<and> \<not> round_running (alive_after players nr (length nr)) (impostors ctx)
           \<and> round_trace (impostors ctx) players 0 nv nr"
proof -
  from assms obtain fa fs where
    "simulate_round_loop ctx players 0 g vs rs = Inr (fa, fs, g', vs', rs')"
    by (auto simp: simulate_round_def split: sum.splits)
  from simulate_round_loop_trace [OF this] show ?thesis by auto
qed

lemma round_step_example:
  "round_step \<lparr>ctx_P = 3, ctx_R = 1, match_id = 1, round_id = 1, step_id = 0, impostors = {0}\<rparr>
     [0, 1, 2] 0 \<lparr>draws = (\<lambda>i. 0), pos = 1\<rparr> [] []
   = Inr ([1, 2], 1, \<lparr>draws = (\<lambda>i. 0), pos = 5\<rparr>,
          [\<lparr>v_P = 3, v_R = 1, v_match = 1, v_round = 1, v_step = 1, v_voter = 0,
             v_target = 1, v_voter_role = ''impostor'', v_target_role = ''civil''\<rparr>,
           \<lparr>v_P = 3, v_R = 1, v_match = 1, v_round = 1, v_step = 1, v_voter = 1,
             v_target = 0, v_voter_role = ''civil'', v_target_role = ''impostor''\<rparr>,
           \<lparr>v_P = 3, v_R = 1, v_match = 1, v_round = 1, v_step = 1, v_voter = 2,
             v_target = 0, v_voter_role = ''civil'', v_target_role = ''impostor''\<rparr>],
          [\<lparr>g_P = 3, g_R = 1, g_match = 1, g_round = 1, g_step = 1,
             g_eliminated = 0, g_eliminated_role = ''impostor'',
             g_max_votes = 2, g_tie_size = 1, g_impostors_wins = False\<rparr>])"
  by (simp add: round_step_def choose_targets_def rng_choice_def
      pick_eliminated_from_targets_def Counter_def list_remove_def append_votes_rows_def
      append_game_result_row_def vote_row_def role_of_def impostors_win_def Let_def)

lemma round_running_example_start: "round_running [0, 1, 2] {0}"
  by (simp add: round_running_def impostors_win_def Let_def)

lemma round_running_example_end: "\<not> round_running [1, 2] {0}"
  by (simp add: round_running_def impostors_win_def Let_def)

lemma simulate_round_example:
  "simulate_round \<lparr>ctx_P = 3, ctx_R = 1, match_id = 1, round_id = 1, step_id = 0, impostors = {0}\<rparr>
     [0, 1, 2] \<lparr>draws = (\<lambda>i. 0), pos = 1\<rparr> [] []
   = Inr (\<lparr>draws = (\<lambda>i. 0), pos = 5\<rparr>,
          [\<lparr>v_P = 3, v_R = 1, v_match = 1, v_round = 1, v_step = 1, v_voter = 0,
             v_target = 1, v_voter_role = ''impostor'', v_target_role = ''civil''\<rparr>,
           \<lparr>v_P = 3, v_R = 1, v_match = 1, v_round = 1, v_step = 1, v_voter = 1,
             v_target = 0, v_voter_role = ''civil'', v_target_role = ''impostor''\<rparr>,
           \<lparr>v_P = 3, v_R = 1, v_match = 1, v_round = 1, v_step = 1, v_voter = 2,
             v_target = 0, v_voter_role = ''civil'', v_target_role = ''impostor''\<rparr>],
          [\<lparr>g_P = 3, g_R = 1, g_match = 1, g_round = 1, g_step = 1,
             g_eliminated = 0, g_eliminated_role = ''impostor'',
             g_max_votes = 2, g_tie_size = 1, g_impostors_wins = False\<rparr>])"
proof -
  have stop: "\<not> round_running [1, 2] (impostors \<lparr>ctx_P = 3, ctx_R = 1, match_id = 1,
                  round_id = 1, step_id = 0, impostors = {0}\<rparr>)"
    using round_running_example_end by simp
  have start: "round_running [0, 1, 2] (impostors \<lparr>ctx_P = 3, ctx_R = 1, match_id = 1,
                  round_id = 1, step_id = 0, impostors = {0}\<rparr>)"
    using round_running_example_start by simp
  show ?thesis
    unfolding simulate_round_def simulate_round_loop_step [OF start round_step_example]
      simulate_round_loop_stop [OF stop]
    by simp
qed

text \<open>
  Claim C7. A step appends one vote row per alive player, in the order of the alive pool
  it was run on; in a whole round, the vote rows carrying step id \<open>j + 1\<close> are exactly
  the voters of the pool left by the first \<open>j\<close> eliminations, and no vote row lies
  outside the executed steps.
\<close>

theorem vote_rows_per_step:
  assumes step: "round_step ctx players_alive sid g vs rs = Inr (alive', sid', g1, vs', rs')"
    and round: "simulate_round base_ctx players g0 votes game_results
                  = Inr (g', votes', game_results')"
  shows "(\<exists>rows. vs' = vs @ rows \<and> length rows = length players_alive
            \<and> map v_voter rows = players_alive
            \<and> list_all (\<lambda>v. v_step v = sid + 1) rows)
       \<and> (\<exists>nv nr. votes' = votes @ nv \<and> game_results' = game_results @ nr
            \<and> (\<forall>j < length nr.
                  g_step (nr ! j) = int j + 1
                \<and> map v_voter (filter (\<lambda>v. v_step v = int j + 1) nv)
                    = alive_after players nr j
                \<and> length (filter (\<lambda>v. v_step v = int j + 1) nv)
                    = length (alive_after players nr j))
            \<and> (\<forall>v \<in> set nv. 1 \<le> v_step v \<and> v_step v \<le> int (length nr)))"
proof -
  from round_step_rows [OF step] obtain rows where
    r: "vs' = vs @ rows" "map v_voter rows = players_alive"
       "\<forall>v \<in> set rows. v_step v = sid + 1"
    by blast
  from r(2) have "length rows = length players_alive" by (metis length_map)
  with r have first: "\<exists>rows. vs' = vs @ rows \<and> length rows = length players_alive
            \<and> map v_voter rows = players_alive
            \<and> list_all (\<lambda>v. v_step v = sid + 1) rows"
    by (auto simp: list_all_iff)
  from simulate_round_trace [OF round] obtain nv nr where
    t: "votes' = votes @ nv" "game_results' = game_results @ nr"
       "round_trace (impostors base_ctx) players 0 nv nr"
    by blast
  have "g_step (nr ! j) = int j + 1
      \<and> map v_voter (filter (\<lambda>v. v_step v = int j + 1) nv) = alive_after players nr j
      \<and> length (filter (\<lambda>v. v_step v = int j + 1) nv) = length (alive_after players nr j)"
    if "j < length nr" for j
  proof -
    from t(3) that have a: "g_step (nr ! j) = int j + 1"
      and b: "map v_voter (filter (\<lambda>v. v_step v = int j + 1) nv) = alive_after players nr j"
      by (simp_all add: round_trace_def)
    from b have "length (filter (\<lambda>v. v_step v = int j + 1) nv)
                   = length (alive_after players nr j)"
      by (metis length_map)
    with a b show ?thesis by simp
  qed
  moreover from t(3) have "\<forall>v \<in> set nv. 1 \<le> v_step v \<and> v_step v \<le> int (length nr)"
    by (auto simp: round_trace_def)
  ultimately have "\<exists>nv nr. votes' = votes @ nv \<and> game_results' = game_results @ nr
            \<and> (\<forall>j < length nr.
                  g_step (nr ! j) = int j + 1
                \<and> map v_voter (filter (\<lambda>v. v_step v = int j + 1) nv)
                    = alive_after players nr j
                \<and> length (filter (\<lambda>v. v_step v = int j + 1) nv)
                    = length (alive_after players nr j))
            \<and> (\<forall>v \<in> set nv. 1 \<le> v_step v \<and> v_step v \<le> int (length nr))"
    using t(1,2) by blast
  with first show ?thesis by blast
qed

theorem vote_rows_per_step_witness:
  "round_step ex_ctx [0, 1, 2] 0 (ex_rng 1) [] []
     = Inr ([1, 2], 1, ex_rng 5, ex_votes, ex_results)
   \<and> simulate_round ex_ctx [0, 1, 2] (ex_rng 1) [] [] = Inr (ex_rng 5, ex_votes, ex_results)
   \<and> (\<exists>rows. ex_votes = [] @ rows \<and> length rows = length [0, 1, 2 :: int]
          \<and> map v_voter rows = [0, 1, 2]
          \<and> list_all (\<lambda>v. v_step v = 0 + 1) rows)
   \<and> (\<exists>nv nr. ex_votes = [] @ nv \<and> ex_results = [] @ nr
          \<and> (\<forall>j < length nr.
                g_step (nr ! j) = int j + 1
              \<and> map v_voter (filter (\<lambda>v. v_step v = int j + 1) nv)
                  = alive_after [0, 1, 2] nr j
              \<and> length (filter (\<lambda>v. v_step v = int j + 1) nv)
                  = length (alive_after [0, 1, 2] nr j))
          \<and> (\<forall>v \<in> set nv. 1 \<le> v_step v \<and> v_step v \<le> int (length nr)))"
  using vote_rows_per_step [OF round_step_example simulate_round_example]
    round_step_example simulate_round_example
  by blast

lemma impostor_out_no_win:
  assumes run: "round_running alive imps" and e: "e \<in> imps"
  shows "\<not> impostors_win (remove1 e alive) imps"
proof -
  have sub: "set (remove1 e alive) \<subseteq> set alive" by (rule set_remove1_subset)
  have "set alive - imps \<subseteq> set (remove1 e alive)"
  proof
    fix x assume "x \<in> set alive - imps"
    with e have "x \<in> set alive" "x \<noteq> e" by auto
    then show "x \<in> set (remove1 e alive)" by simp
  qed
  with sub have civ: "set (remove1 e alive) - imps = set alive - imps" by auto
  have "card (set (remove1 e alive) \<inter> imps) \<le> card (set alive \<inter> imps)"
    using sub by (intro card_mono) auto
  moreover from run have "card (set alive \<inter> imps) < card (set alive - imps)"
    by (auto simp: round_running_def impostors_win_def Let_def)
  ultimately show ?thesis by (simp add: impostors_win_def Let_def civ)
qed

lemma round_trace_length_Suc:
  assumes "round_trace imps alive sid nv nr" and "j < length nr"
  shows "length (alive_after alive nr (Suc j)) + 1 = length (alive_after alive nr j)"
proof -
  from assms have m: "g_eliminated (nr ! j) \<in> set (alive_after alive nr j)"
    by (simp add: round_trace_def)
  then have "alive_after alive nr j \<noteq> []" by auto
  then have "0 < length (alive_after alive nr j)" by simp
  with m show ?thesis
    by (simp add: alive_after_Suc [OF assms(2)] length_remove1)
qed

lemma round_trace_length:
  assumes "round_trace imps alive sid nv nr"
  shows "j \<le> length nr \<Longrightarrow> length (alive_after alive nr j) + j = length alive"
proof (induction j)
  case 0
  then show ?case by simp
next
  case (Suc j)
  then have "j < length nr" by simp
  from round_trace_length_Suc [OF assms this] Suc show ?case by simp
qed

lemma round_trace_final_pool:
  assumes tr: "round_trace imps alive sid nv nr" and ne: "alive \<noteq> []"
  shows "alive_after alive nr (length nr) \<noteq> []"
proof (cases nr rule: rev_cases)
  case Nil
  with ne show ?thesis by simp
next
  case (snoc nr' row)
  then have j: "length nr' < length nr" by simp
  with tr have "round_running (alive_after alive nr (length nr')) imps"
    by (simp add: round_trace_def)
  then have "3 \<le> length (alive_after alive nr (length nr'))"
    by (rule round_running_length)
  with round_trace_length_Suc [OF tr j] snoc show ?thesis by auto
qed

lemma upto_pool_length: "length [0..P - 1] = nat P"
  by simp

text \<open>
  Claim C5. The round of a match of \<open>P\<close> players (the pool \<open>range(P)\<close>, not empty
  since an impostor was drawn from it) returns, without raising; each of its steps leaves a
  pool one shorter, the number of steps is at most \<open>P - 1\<close>, and the final pool is not
  empty.
\<close>

theorem round_terminates:
  assumes P: "1 \<le> P"
  shows "\<exists>fa fs fg nv nr.
           simulate_round_loop ctx [0..P - 1] 0 g vs rs = Inr (fa, fs, fg, vs @ nv, rs @ nr)
         \<and> fs = int (length nr) \<and> int (length nr) \<le> P - 1
         \<and> fa = alive_after [0..P - 1] nr (length nr) \<and> fa \<noteq> []
         \<and> length fa + length nr = nat P
         \<and> (\<forall>j < length nr.
               length (alive_after [0..P - 1] nr (Suc j)) + 1
                 = length (alive_after [0..P - 1] nr j))"
proof -
  obtain fa fs fg fv fr where
    run: "simulate_round_loop ctx [0..P - 1] 0 g vs rs = Inr (fa, fs, fg, fv, fr)"
    using simulate_round_loop_total [of ctx "[0..P - 1]" 0 g vs rs]
    by (metis prod_cases5)
  from simulate_round_loop_trace [OF run] obtain nv nr where
    t: "fv = vs @ nv" "fr = rs @ nr" "fa = alive_after [0..P - 1] nr (length nr)"
       "fs = 0 + int (length nr)"
       "round_trace (impostors ctx) [0..P - 1] 0 nv nr"
    by blast
  from P have ne: "[0..P - 1] \<noteq> []" by (simp add: upto_rec1)
  from round_trace_final_pool [OF t(5) ne] t(3) have fa: "fa \<noteq> []" by simp
  from round_trace_length [OF t(5), of "length nr"] t(3)
  have len: "length fa + length nr = nat P" by simp
  from fa have "1 \<le> length fa" by (cases fa) auto
  with len P have bound: "int (length nr) \<le> P - 1" by linarith
  have steps: "\<forall>j < length nr.
               length (alive_after [0..P - 1] nr (Suc j)) + 1
                 = length (alive_after [0..P - 1] nr j)"
    using round_trace_length_Suc [OF t(5)] by blast
  from run t(1-4) fa len bound steps show ?thesis by auto
qed

theorem round_terminates_witness:
  "(1::int) \<le> 3
   \<and> (\<exists>fa fs fg nv nr.
           simulate_round_loop ex_ctx [0..3 - 1] 0 (ex_rng 1) [] []
             = Inr (fa, fs, fg, [] @ nv, [] @ nr)
         \<and> fs = int (length nr) \<and> int (length nr) \<le> 3 - 1
         \<and> fa = alive_after [0..3 - 1] nr (length nr) \<and> fa \<noteq> []
         \<and> length fa + length nr = nat 3
         \<and> (\<forall>j < length nr.
               length (alive_after [0..3 - 1] nr (Suc j)) + 1
                 = length (alive_after [0..3 - 1] nr j)))"
  using round_terminates [of 3 ex_ctx "ex_rng 1" "[]" "[]"] by simp

text \<open>
  Claim C6. In a round started on \<open>P \<ge> 2\<close> players with one impostor drawn from the
  pool, every step runs on a pool for which the loop guard holds, and that pool has at least
  two players; wherever the guard holds every voter has a candidate, so
  \<open>choose_targets\<close> and the step succeed, and a pool of fewer than two players never passes
  the guard. The round itself returns without raising.
\<close>

theorem voting_needs_two_alive:
  assumes P: "2 \<le> P" and imp: "imp \<in> set [0..P - 1]" and ctx: "impostors ctx = {imp}"
  shows "(\<exists>fa fs fg nv nr.
            simulate_round_loop ctx [0..P - 1] 0 g vs rs = Inr (fa, fs, fg, vs @ nv, rs @ nr)
          \<and> (\<forall>j < length nr.
                round_running (alive_after [0..P - 1] nr j) {imp}
              \<and> 2 \<le> length (alive_after [0..P - 1] nr j)))
       \<and> (\<forall>alive g' sid vs' rs'.
            round_running alive {imp} \<longrightarrow>
              2 \<le> length alive
            \<and> (\<forall>voter \<in> set alive. filter (\<lambda>p. p \<noteq> voter) alive \<noteq> [])
            \<and> (\<exists>ts g1. choose_targets alive g' = Inr (ts, g1))
            \<and> (\<exists>r. round_step ctx alive sid g' vs' rs' = Inr r))
       \<and> (\<forall>alive. length alive < 2 \<longrightarrow> \<not> round_running alive {imp})"
proof -
  obtain fa fs fg fv fr where
    run: "simulate_round_loop ctx [0..P - 1] 0 g vs rs = Inr (fa, fs, fg, fv, fr)"
    using simulate_round_loop_total [of ctx "[0..P - 1]" 0 g vs rs]
    by (metis prod_cases5)
  from simulate_round_loop_trace [OF run] ctx obtain nv nr where
    t: "fv = vs @ nv" "fr = rs @ nr" "round_trace {imp} [0..P - 1] 0 nv nr"
    by auto
  have "round_running (alive_after [0..P - 1] nr j) {imp}
      \<and> 2 \<le> length (alive_after [0..P - 1] nr j)" if "j < length nr" for j
  proof -
    from t(3) that have r: "round_running (alive_after [0..P - 1] nr j) {imp}"
      by (simp add: round_trace_def)
    from round_running_length [OF r] r show ?thesis by simp
  qed
  with run t(1,2) have first: "\<exists>fa fs fg nv nr.
            simulate_round_loop ctx [0..P - 1] 0 g vs rs = Inr (fa, fs, fg, vs @ nv, rs @ nr)
          \<and> (\<forall>j < length nr.
                round_running (alive_after [0..P - 1] nr j) {imp}
              \<and> 2 \<le> length (alive_after [0..P - 1] nr j))"
    by blast
  have second: "2 \<le> length alive
            \<and> (\<forall>voter \<in> set alive. filter (\<lambda>p. p \<noteq> voter) alive \<noteq> [])
            \<and> (\<exists>ts g1. choose_targets alive g' = Inr (ts, g1))
            \<and> (\<exists>r. round_step ctx alive sid g' vs' rs' = Inr r)"
    if r: "round_running alive {imp}" for alive g' sid vs' rs'
  proof -
    from round_running_card [OF r] have c: "2 \<le> card (set alive)" by simp
    from round_running_length [OF r] have l: "2 \<le> length alive" by simp
    have "filter (\<lambda>p. p \<noteq> voter) alive \<noteq> []" for voter
    proof
      assume "filter (\<lambda>p. p \<noteq> voter) alive = []"
      then have "set alive \<subseteq> {voter}" by (auto simp: filter_empty_conv)
      then have "card (set alive) \<le> card {voter}" by (intro card_mono) auto
      with c show False by simp
    qed
    with l choose_targets_ok [OF c] round_step_ok [OF c] show ?thesis by blast
  qed
  have third: "\<not> round_running alive {imp}" if "length alive < 2" for alive
    using round_running_length [of alive "{imp}"] that by auto
  from first second third show ?thesis by blast
qed

theorem voting_needs_two_alive_witness:
  "(2::int) \<le> 3 \<and> (0::int) \<in> set [0..3 - 1] \<and> impostors ex_ctx = {0}
   \<and> (\<exists>fa fs fg nv nr.
            simulate_round_loop ex_ctx [0..3 - 1] 0 (ex_rng 1) [] []
              = Inr (fa, fs, fg, [] @ nv, [] @ nr)
          \<and> (\<forall>j < length nr.
                round_running (alive_after [0..3 - 1] nr j) {0}
              \<and> 2 \<le> length (alive_after [0..3 - 1] nr j)))
   \<and> round_running [0, 1, 2] {0}
   \<and> (\<exists>ts g1. choose_targets [0, 1, 2] (ex_rng 1) = Inr (ts, g1))
   \<and> \<not> round_running [0] {0}"
proof -
  have h: "(2::int) \<le> 3" "(0::int) \<in> set [0..3 - 1]" "impostors ex_ctx = {0}"
    by (simp_all add: upto_rec1)
  from voting_needs_two_alive [OF h, of "ex_rng 1" "[]" "[]"] h round_running_example_start
  show ?thesis by simp
qed

lemma simulate_round_ok: "\<exists>g' vs' rs'. simulate_round ctx players g vs rs = Inr (g', vs', rs')"
proof -
  obtain fa fs fg fv fr where
    "simulate_round_loop ctx players 0 g vs rs = Inr (fa, fs, fg, fv, fr)"
    using simulate_round_loop_total [of ctx players 0 g vs rs] by (metis prod_cases5)
  then show ?thesis by (simp add: simulate_round_def)
qed

lemma simulate_round_quiet:
  "\<not> round_running players (impostors ctx) \<Longrightarrow>
   simulate_round ctx players g vs rs = Inr (g, vs, rs)"
  by (simp add: simulate_round_def simulate_round_loop_stop)

lemma simulate_match_loop_ok:
  "players \<noteq> [] \<Longrightarrow> \<exists>r. simulate_match_loop P R mid players rids g vs rs = Inr r"
proof (induction rids arbitrary: g vs rs)
  case Nil
  then show ?case by simp
next
  case (Cons rid rids)
  from rng_choice_ok [OF Cons.prems, of g] obtain imp g1 where
    c: "rng_choice players g = Inr (imp, g1)" by blast
  obtain g2 vs2 rs2 where
    r: "simulate_round \<lparr>ctx_P = P, ctx_R = R, match_id = mid, round_id = rid,
          step_id = 0, impostors = {imp}\<rparr> players g1 vs rs = Inr (g2, vs2, rs2)"
    using simulate_round_ok by blast
  from Cons.IH [OF Cons.prems, of g2 vs2 rs2] c r show ?case by (simp add: Let_def)
qed

lemma simulate_match_loop_empty_pool:
  "rids \<noteq> [] \<Longrightarrow> simulate_match_loop P R mid [] rids g vs rs = Inl ChoiceEmpty"
  by (cases rids) (simp_all add: rng_choice_def)

lemma pool_empty_iff: "[0..P - 1] = [] \<longleftrightarrow> P \<le> 0"
  by (auto simp: upto_rec1)

lemma rounds_empty_iff: "[1..R] = [] \<longleftrightarrow> R < 1"
  by (auto simp: upto_rec1)

lemma simulate_match_err:
  "P \<le> 0 \<Longrightarrow> 1 \<le> R \<Longrightarrow> simulate_match P R mid g vs rs = Inl ChoiceEmpty"
proof -
  assume "P \<le> 0" "1 \<le> R"
  then have "[0..P - 1] = []" "[1..R] \<noteq> []"
    by (simp_all add: pool_empty_iff rounds_empty_iff)
  then show ?thesis
    unfolding simulate_match_def by (simp add: simulate_match_loop_empty_pool)
qed

lemma simulate_match_no_rounds:
  "R < 1 \<Longrightarrow> simulate_match P R mid g vs rs = Inr (g, vs, rs)"
  by (simp add: simulate_match_def)

lemma simulate_match_ok:
  "0 < P \<Longrightarrow> \<exists>r. simulate_match P R mid g vs rs = Inr r"
  unfolding simulate_match_def
  by (rule simulate_match_loop_ok) (simp add: pool_empty_iff)

lemma simulate_match_Inr_iff:
  "(\<exists>r. simulate_match P R mid g vs rs = Inr r) \<longleftrightarrow> \<not> (P \<le> 0 \<and> 1 \<le> R)"
proof (cases "P \<le> 0 \<and> 1 \<le> R")
  case True
  then show ?thesis by (simp add: simulate_match_err)
next
  case False
  then consider "R < 1" | "0 < P" by linarith
  then have "\<exists>r. simulate_match P R mid g vs rs = Inr r"
  proof cases
    case 1
    then show ?thesis by (simp add: simulate_match_no_rounds)
  next
    case 2
    then show ?thesis by (rule simulate_match_ok)
  qed
  with False show ?thesis by simp
qed

lemma simulate_match_Inl: "simulate_match P R mid g vs rs = Inl e \<Longrightarrow> e = ChoiceEmpty"
proof -
  assume a: "simulate_match P R mid g vs rs = Inl e"
  then have "\<not> (\<exists>r. simulate_match P R mid g vs rs = Inr r)" by simp
  with simulate_match_Inr_iff [of P R mid g vs rs] have "P \<le> 0 \<and> 1 \<le> R" by blast
  with a show ?thesis by (simp add: simulate_match_err)
qed



















theorem two_player_round_counterexample:
  "run_complete_simulation (\<lambda>s. ex_rng 0)
     \<lparr>P_values = [2], R_values = [1], n_matches = 1, alpha = 0\<rparr> 42
   = Inr ([], [])"
  by code_simp

lemma two_pool_not_running:
  assumes "a \<noteq> b" and "imp \<in> {a, b}"
  shows "\<not> round_running [a, b] {imp}"
  using round_running_length [of "[a, b]" "{imp}"] by auto

text \<open>
  Claim C1, amended. With \<open>P = 2\<close>, \<open>R = 1\<close> and one impostor the round resolves in 0
  steps: one impostor against one civilian is parity, the loop guard fails on the initial
  pool, and the match only consumes the impostor draw and emits no row. A voting step on a
  pool of two different players does have each vote for the other, with \<open>max_votes = 1\<close>,
  a tie of size 2 and the eliminated player picked from the two by the tie-break draw.
\<close>

theorem two_player_round:
  assumes ab: "a \<noteq> b"
  shows "simulate_match 2 1 mid g votes game_results
           = Inr (g\<lparr>pos := Suc (pos g)\<rparr>, votes, game_results)
       \<and> (\<forall>imp \<in> {a, b}. \<not> round_running [a, b] {imp})
       \<and> choose_targets [a, b] g = Inr ([b, a], g\<lparr>pos := Suc (Suc (pos g))\<rparr>)
       \<and> pick_eliminated_from_targets [b, a] g
           = Inr (([b, a] ! (draws g (pos g) mod 2), 1, [b, a]), g\<lparr>pos := Suc (pos g)\<rparr>)"
proof -
  have pool: "[0..2 - 1] = [0, 1 :: int]" "[1..1] = [1 :: int]"
    by (simp_all add: upto_rec1)
  let ?imp = "[0, 1 :: int] ! (draws g (pos g) mod 2)"
  let ?g1 = "g\<lparr>pos := Suc (pos g)\<rparr>"
  have c: "rng_choice [0, 1 :: int] g = Inr (?imp, ?g1)"
    by (simp add: rng_choice_def numeral_2_eq_2)
  have "draws g (pos g) mod 2 = 0 \<or> draws g (pos g) mod 2 = 1" by arith
  then have "?imp \<in> {0, 1}" by auto
  then have "\<not> round_running [0, 1] {?imp}"
    by (intro two_pool_not_running) simp_all
  then have r: "simulate_round \<lparr>ctx_P = 2, ctx_R = 1, match_id = mid, round_id = 1,
          step_id = 0, impostors = {?imp}\<rparr> [0, 1] ?g1 votes game_results
            = Inr (?g1, votes, game_results)"
    by (intro simulate_round_quiet) simp
  have first: "simulate_match 2 1 mid g votes game_results = Inr (?g1, votes, game_results)"
    unfolding simulate_match_def pool
    using c r by (simp add: Let_def)
  have second: "\<forall>imp \<in> {a, b}. \<not> round_running [a, b] {imp}"
    using two_pool_not_running [OF ab] by blast
  have third: "choose_targets [a, b] g = Inr ([b, a], g\<lparr>pos := Suc (Suc (pos g))\<rparr>)"
    using ab by (simp add: choose_targets_def rng_choice_def)
  have cnt: "Counter [b, a] = [(b, 1), (a, 1)]"
    using ab by (simp add: Counter_def)
  have fourth: "pick_eliminated_from_targets [b, a] g
           = Inr (([b, a] ! (draws g (pos g) mod 2), 1, [b, a]), g\<lparr>pos := Suc (pos g)\<rparr>)"
    by (simp add: pick_eliminated_from_targets_def cnt rng_choice_def numeral_2_eq_2 Let_def)
  from first second third fourth show ?thesis by blast
qed

theorem two_player_round_witness:
  "(0::int) \<noteq> 1
   \<and> simulate_match 2 1 1 (ex_rng 0) [] [] = Inr (ex_rng 1, [], [])
   \<and> \<not> round_running [0, 1] {0} \<and> \<not> round_running [0, 1] {1}
   \<and> choose_targets [0, 1] (ex_rng 0) = Inr ([1, 0], ex_rng 2)
   \<and> pick_eliminated_from_targets [1, 0] (ex_rng 2) = Inr ((1, 1, [1, 0]), ex_rng 3)"
proof -
  have h: "(0::int) \<noteq> 1" by simp
  from two_player_round [OF h, of 1 "ex_rng 0" "[]" "[]"]
    two_player_round [OF h, of 1 "ex_rng 2" "[]" "[]"] h
  show ?thesis by simp
qed

lemma impostors_win_iff:
  "impostors_win alive imps \<longleftrightarrow> card (set alive - imps) \<le> card (set alive \<inter> imps)"
  by (simp add: impostors_win_def Let_def)

lemma round_step_example2:
  "round_step ex_ctx2 [0, 1, 2] 0 (ex_rng 1) [] []
     = Inr ([1, 2], 1, ex_rng 5, ex_votes2, ex_results2)"
  by (simp add: round_step_def choose_targets_def rng_choice_def
      pick_eliminated_from_targets_def Counter_def list_remove_def append_votes_rows_def
      append_game_result_row_def vote_row_def role_of_def impostors_win_def Let_def)

lemma simulate_round_example2:
  "simulate_round ex_ctx2 [0, 1, 2] (ex_rng 1) [] [] = Inr (ex_rng 5, ex_votes2, ex_results2)"
proof -
  have stop: "\<not> round_running [1, 2] (impostors ex_ctx2)"
    by (simp add: round_running_def impostors_win_def Let_def)
  have start: "round_running [0, 1, 2] (impostors ex_ctx2)"
    by (simp add: round_running_def impostors_win_def Let_def)
  show ?thesis
    unfolding simulate_round_def simulate_round_loop_step [OF start round_step_example2]
      simulate_round_loop_stop [OF stop]
    by simp
qed

text \<open>
  Claim C3. The flag a step stores says whether, in the pool left by that step's
  \<open>remove\<close>, the alive impostors are at least as many as the alive civilians; over a
  round, the flag of the row of step \<open>j + 1\<close> is that comparison on the pool after
  \<open>j + 1\<close> eliminations, which is the pool before the step with the row's eliminated
  player removed. The flag is false when the eliminated player is an impostor, and a row
  after which no impostor is alive is the round's last.
\<close>

theorem win_flag_post_elimination:
  assumes step: "round_step ctx players_alive sid g vs rs = Inr (alive', sid', g1, vs', rs')"
    and round: "simulate_round base_ctx players g0 votes game_results
                  = Inr (g', votes', game_results')"
  shows "(\<exists>row. rs' = rs @ [row] \<and> alive' = remove1 (g_eliminated row) players_alive
            \<and> (g_impostors_wins row
                 \<longleftrightarrow> card (set alive' - impostors ctx) \<le> card (set alive' \<inter> impostors ctx)))
       \<and> (\<exists>nr. game_results' = game_results @ nr
            \<and> (\<forall>j < length nr.
                  (g_impostors_wins (nr ! j)
                     \<longleftrightarrow> card (set (alive_after players nr (Suc j)) - impostors base_ctx)
                           \<le> card (set (alive_after players nr (Suc j)) \<inter> impostors base_ctx))
                \<and> alive_after players nr (Suc j)
                     = remove1 (g_eliminated (nr ! j)) (alive_after players nr j)
                \<and> (g_eliminated (nr ! j) \<in> impostors base_ctx
                      \<longrightarrow> \<not> g_impostors_wins (nr ! j))
                \<and> (set (alive_after players nr (Suc j)) \<inter> impostors base_ctx = {}
                      \<longrightarrow> Suc j = length nr)))"
proof -
  from round_step_rows [OF step]
  have first: "\<exists>row. rs' = rs @ [row] \<and> alive' = remove1 (g_eliminated row) players_alive
            \<and> (g_impostors_wins row
                 \<longleftrightarrow> card (set alive' - impostors ctx) \<le> card (set alive' \<inter> impostors ctx))"
    unfolding impostors_win_iff by blast
  from simulate_round_trace [OF round] obtain nv nr where
    t: "game_results' = game_results @ nr"
       "round_trace (impostors base_ctx) players 0 nv nr"
    by blast
  have "(g_impostors_wins (nr ! j)
           \<longleftrightarrow> card (set (alive_after players nr (Suc j)) - impostors base_ctx)
                 \<le> card (set (alive_after players nr (Suc j)) \<inter> impostors base_ctx))
      \<and> alive_after players nr (Suc j)
           = remove1 (g_eliminated (nr ! j)) (alive_after players nr j)
      \<and> (g_eliminated (nr ! j) \<in> impostors base_ctx \<longrightarrow> \<not> g_impostors_wins (nr ! j))
      \<and> (set (alive_after players nr (Suc j)) \<inter> impostors base_ctx = {}
            \<longrightarrow> Suc j = length nr)"
    if j: "j < length nr" for j
  proof -
    from t(2) j have fl: "g_impostors_wins (nr ! j)
          = impostors_win (alive_after players nr (Suc j)) (impostors base_ctx)"
      and run: "round_running (alive_after players nr j) (impostors base_ctx)"
      by (simp_all add: round_trace_def)
    from fl have cnt: "g_impostors_wins (nr ! j)
           \<longleftrightarrow> card (set (alive_after players nr (Suc j)) - impostors base_ctx)
                 \<le> card (set (alive_after players nr (Suc j)) \<inter> impostors base_ctx)"
      by (simp add: impostors_win_iff)
    have out: "\<not> g_impostors_wins (nr ! j)" if "g_eliminated (nr ! j) \<in> impostors base_ctx"
      using impostor_out_no_win [OF run that] fl alive_after_Suc [OF j] by simp
    have last: "Suc j = length nr"
      if none: "set (alive_after players nr (Suc j)) \<inter> impostors base_ctx = {}"
    proof (rule ccontr)
      assume "Suc j \<noteq> length nr"
      with j have "Suc j < length nr" by simp
      with t(2) have "round_running (alive_after players nr (Suc j)) (impostors base_ctx)"
        by (simp add: round_trace_def)
      with none show False by (simp add: round_running_def)
    qed
    from cnt alive_after_Suc [OF j] out last show ?thesis by blast
  qed
  with t(1) have "\<exists>nr. game_results' = game_results @ nr
            \<and> (\<forall>j < length nr.
                  (g_impostors_wins (nr ! j)
                     \<longleftrightarrow> card (set (alive_after players nr (Suc j)) - impostors base_ctx)
                           \<le> card (set (alive_after players nr (Suc j)) \<inter> impostors base_ctx))
                \<and> alive_after players nr (Suc j)
                     = remove1 (g_eliminated (nr ! j)) (alive_after players nr j)
                \<and> (g_eliminated (nr ! j) \<in> impostors base_ctx
                      \<longrightarrow> \<not> g_impostors_wins (nr ! j))
                \<and> (set (alive_after players nr (Suc j)) \<inter> impostors base_ctx = {}
                      \<longrightarrow> Suc j = length nr))"
    by blast
  with first show ?thesis by blast
qed

theorem win_flag_post_elimination_witness:
  "round_step ex_ctx [0, 1, 2] 0 (ex_rng 1) [] []
     = Inr ([1, 2], 1, ex_rng 5, ex_votes, ex_results)
   \<and> simulate_round ex_ctx [0, 1, 2] (ex_rng 1) [] [] = Inr (ex_rng 5, ex_votes, ex_results)
   \<and> round_step ex_ctx2 [0, 1, 2] 0 (ex_rng 1) [] []
     = Inr ([1, 2], 1, ex_rng 5, ex_votes2, ex_results2)
   \<and> simulate_round ex_ctx2 [0, 1, 2] (ex_rng 1) [] [] = Inr (ex_rng 5, ex_votes2, ex_results2)
   \<and> (\<exists>row. ex_results = [] @ [row] \<and> [1, 2] = remove1 (g_eliminated row) [0, 1, 2]
          \<and> (g_impostors_wins row
               \<longleftrightarrow> card (set [1, 2] - impostors ex_ctx) \<le> card (set [1, 2] \<inter> impostors ex_ctx))
          \<and> \<not> g_impostors_wins row)
   \<and> (\<exists>row. ex_results2 = [] @ [row] \<and> [1, 2] = remove1 (g_eliminated row) [0, 1, 2]
          \<and> (g_impostors_wins row
               \<longleftrightarrow> card (set [1, 2] - impostors ex_ctx2) \<le> card (set [1, 2] \<inter> impostors ex_ctx2))
          \<and> g_impostors_wins row)
   \<and> (\<exists>nr. ex_results = [] @ nr
          \<and> (\<forall>j < length nr.
                (g_impostors_wins (nr ! j)
                   \<longleftrightarrow> card (set (alive_after [0, 1, 2] nr (Suc j)) - impostors ex_ctx)
                         \<le> card (set (alive_after [0, 1, 2] nr (Suc j)) \<inter> impostors ex_ctx))
              \<and> alive_after [0, 1, 2] nr (Suc j)
                   = remove1 (g_eliminated (nr ! j)) (alive_after [0, 1, 2] nr j)
              \<and> (g_eliminated (nr ! j) \<in> impostors ex_ctx \<longrightarrow> \<not> g_impostors_wins (nr ! j))
              \<and> (set (alive_after [0, 1, 2] nr (Suc j)) \<inter> impostors ex_ctx = {}
                    \<longrightarrow> Suc j = length nr)))
   \<and> (\<exists>nr. ex_results2 = [] @ nr
          \<and> (\<forall>j < length nr.
                (g_impostors_wins (nr ! j)
                   \<longleftrightarrow> card (set (alive_after [0, 1, 2] nr (Suc j)) - impostors ex_ctx2)
                         \<le> card (set (alive_after [0, 1, 2] nr (Suc j)) \<inter> impostors ex_ctx2))
              \<and> alive_after [0, 1, 2] nr (Suc j)
                   = remove1 (g_eliminated (nr ! j)) (alive_after [0, 1, 2] nr j)
              \<and> (g_eliminated (nr ! j) \<in> impostors ex_ctx2 \<longrightarrow> \<not> g_impostors_wins (nr ! j))
              \<and> (set (alive_after [0, 1, 2] nr (Suc j)) \<inter> impostors ex_ctx2 = {}
                    \<longrightarrow> Suc j = length nr)))"
proof -
  note t1 = win_flag_post_elimination [OF round_step_example simulate_round_example]
  note t2 = win_flag_post_elimination [OF round_step_example2 simulate_round_example2]
  from t1 obtain row1 where
    r1: "ex_results = [] @ [row1]" "[1, 2] = remove1 (g_eliminated row1) [0, 1, 2]"
        "g_impostors_wins row1
           \<longleftrightarrow> card (set [1, 2] - impostors ex_ctx) \<le> card (set [1, 2] \<inter> impostors ex_ctx)"
    by blast
  from r1(1) have "\<not> g_impostors_wins row1" by auto
  with r1 have a: "\<exists>row. ex_results = [] @ [row]
          \<and> [1, 2] = remove1 (g_eliminated row) [0, 1, 2]
          \<and> (g_impostors_wins row
               \<longleftrightarrow> card (set [1, 2] - impostors ex_ctx) \<le> card (set [1, 2] \<inter> impostors ex_ctx))
          \<and> \<not> g_impostors_wins row"
    by blast
  from t2 obtain row2 where
    r2: "ex_results2 = [] @ [row2]" "[1, 2] = remove1 (g_eliminated row2) [0, 1, 2]"
        "g_impostors_wins row2
           \<longleftrightarrow> card (set [1, 2] - impostors ex_ctx2) \<le> card (set [1, 2] \<inter> impostors ex_ctx2)"
    by blast
  from r2(1) have "g_impostors_wins row2" by auto
  with r2 have b: "\<exists>row. ex_results2 = [] @ [row]
          \<and> [1, 2] = remove1 (g_eliminated row) [0, 1, 2]
          \<and> (g_impostors_wins row
               \<longleftrightarrow> card (set [1, 2] - impostors ex_ctx2) \<le> card (set [1, 2] \<inter> impostors ex_ctx2))
          \<and> g_impostors_wins row"
    by blast
  from t1 t2 a b round_step_example simulate_round_example
    round_step_example2 simulate_round_example2
  show ?thesis by blast
qed

lemma remdups_adj_append_disjoint:
  assumes "set xs \<inter> set ys = {}"
  shows "remdups_adj (xs @ ys) = remdups_adj xs @ remdups_adj ys"
proof (rule remdups_adj_append')
  show "xs = [] \<or> ys = [] \<or> last xs \<noteq> hd ys"
  proof (cases "xs = [] \<or> ys = []")
    case True
    then show ?thesis by blast
  next
    case False
    then have "last xs \<in> set xs" "hd ys \<in> set ys" by simp_all
    with assms have "last xs \<noteq> hd ys" by auto
    then show ?thesis by simp
  qed
qed

lemma remdups_adj_replicate_append:
  assumes "0 < n" and "x \<notin> set ys"
  shows "remdups_adj (replicate n x @ ys) = x # remdups_adj ys"
proof -
  from assms(2) have "set (replicate n x) \<inter> set ys = {}" by auto
  from remdups_adj_append_disjoint [OF this] assms(1) show ?thesis
    by (simp add: remdups_adj_replicate)
qed

lemma round_ids_mem:
  "x \<in> set (round_ids P R m r k) \<Longrightarrow> coord_match x = m \<and> fst (snd (snd (snd x))) = r"
  by (auto simp: round_ids_def coord_match_def)

lemma rounds_ids_mem:
  "x \<in> set (rounds_ids P R m r0 ks) \<Longrightarrow> coord_match x = m \<and> r0 < fst (snd (snd (snd x)))"
proof (induction ks arbitrary: r0)
  case Nil
  then show ?case by simp
next
  case (Cons k ks)
  from Cons.prems consider "x \<in> set (round_ids P R m (r0 + 1) k)"
    | "x \<in> set (rounds_ids P R m (r0 + 1) ks)" by auto
  then show ?case
  proof cases
    case 1
    from round_ids_mem [OF this] show ?thesis by simp
  next
    case 2
    from Cons.IH [OF this] show ?thesis by simp
  qed
qed

lemma match_ids_mem: "x \<in> set (match_ids P R m ks) \<Longrightarrow> coord_match x = m"
  unfolding match_ids_def by (drule rounds_ids_mem) simp

lemma sweep_ids_mem: "x \<in> set (sweep_ids mid cs) \<Longrightarrow> mid < coord_match x"
proof (induction cs arbitrary: mid)
  case Nil
  then show ?case by simp
next
  case (Cons c cs)
  from Cons.prems consider "x \<in> set (match_ids (fst (fst c)) (snd (fst c)) (mid + 1) (snd c))"
    | "x \<in> set (sweep_ids (mid + 1) cs)" by auto
  then show ?case
  proof cases
    case 1
    from match_ids_mem [OF this] show ?thesis by simp
  next
    case 2
    from Cons.IH [OF this] show ?thesis by simp
  qed
qed

lemma sweep_ids_mem_upper:
  "x \<in> set (sweep_ids mid cs) \<Longrightarrow> coord_match x \<le> mid + int (length cs)"
proof (induction cs arbitrary: mid)
  case Nil
  then show ?case by simp
next
  case (Cons c cs)
  from Cons.prems consider "x \<in> set (match_ids (fst (fst c)) (snd (fst c)) (mid + 1) (snd c))"
    | "x \<in> set (sweep_ids (mid + 1) cs)" by auto
  then show ?case
  proof cases
    case 1
    from match_ids_mem [OF this] show ?thesis by simp
  next
    case 2
    from Cons.IH [OF this] show ?thesis by simp
  qed
qed

lemma sweep_ids_append:
  "sweep_ids mid (a @ b) = sweep_ids mid a @ sweep_ids (mid + int (length a)) b"
proof (induction a arbitrary: mid)
  case Nil
  then show ?case by simp
next
  case (Cons c a)
  have "mid + 1 + int (length a) = mid + int (length (c # a))" by simp
  with Cons.IH [of "mid + 1"] show ?case by simp
qed

lemma upto_Suc_len: "[a + 1..a + int (Suc n)] = (a + 1) # [a + 1 + 1..a + 1 + int n]"
proof -
  have e: "a + int (Suc n) = a + 1 + int n" by simp
  show ?thesis unfolding e by (rule upto_rec1) simp
qed

lemma round_step_ids:
  assumes "round_step ctx alive sid g vs rs = Inr (alive', sid', g', vs', rs')"
  shows "\<exists>rows row. vs' = vs @ rows \<and> rs' = rs @ [row] \<and> sid' = sid + 1
           \<and> map v_ids rows
               = replicate (length alive)
                   (ctx_P ctx, ctx_R ctx, match_id ctx, round_id ctx, sid + 1)
           \<and> g_ids row = (ctx_P ctx, ctx_R ctx, match_id ctx, round_id ctx, sid + 1)"
proof -
  from round_step_Inr [OF assms] obtain ts g1 e mv most where
    ct: "choose_targets alive g = Inr (ts, g1)"
    and pe: "pick_eliminated_from_targets ts g1 = Inr ((e, mv, most), g')"
    and sid': "sid' = sid + 1"
    and vs': "vs' = vs @ map (vote_row (ctx\<lparr>step_id := sid + 1\<rparr>)) (zip alive ts)"
    and rs': "rs' = rs @ [\<lparr>g_P = ctx_P ctx, g_R = ctx_R ctx, g_match = match_id ctx,
                         g_round = round_id ctx, g_step = sid + 1, g_eliminated = e,
                         g_eliminated_role = role_of e (impostors ctx),
                         g_max_votes = mv, g_tie_size = length most,
                         g_impostors_wins = impostors_win (remove1 e alive) (impostors ctx)\<rparr>]"
    by blast
  let ?x = "(ctx_P ctx, ctx_R ctx, match_id ctx, round_id ctx, sid + 1)"
  let ?rows = "map (vote_row (ctx\<lparr>step_id := sid + 1\<rparr>)) (zip alive ts)"
  let ?row = "\<lparr>g_P = ctx_P ctx, g_R = ctx_R ctx, g_match = match_id ctx,
                         g_round = round_id ctx, g_step = sid + 1, g_eliminated = e,
                         g_eliminated_role = role_of e (impostors ctx),
                         g_max_votes = mv, g_tie_size = length most,
                         g_impostors_wins = impostors_win (remove1 e alive) (impostors ctx)\<rparr>"
  have len: "length ts = length alive" by (rule choose_targets_length [OF ct])
  have "map v_ids ?rows = map (\<lambda>x. ?x) (zip alive ts)"
    by (simp add: v_ids_def vote_row_def)
  also have "\<dots> = replicate (length (zip alive ts)) ?x"
    by (simp add: map_replicate_const)
  finally have v: "map v_ids ?rows = replicate (length alive) ?x"
    using len by simp
  have "vs' = vs @ ?rows \<and> rs' = rs @ [?row] \<and> sid' = sid + 1
           \<and> map v_ids ?rows = replicate (length alive) ?x
           \<and> g_ids ?row = ?x"
    using vs' rs' sid' v by (simp add: g_ids_def)
  then show ?thesis by blast
qed

lemma simulate_round_loop_ids:
  assumes "simulate_round_loop ctx alive sid g vs rs = Inr (fa, fs, fg, fv, fr)"
  shows "\<exists>nv nr. fv = vs @ nv \<and> fr = rs @ nr
           \<and> map g_ids nr = map (\<lambda>s. (ctx_P ctx, ctx_R ctx, match_id ctx, round_id ctx, s))
                               [sid + 1..sid + int (length nr)]
           \<and> remdups_adj (map v_ids nv) = map g_ids nr"
  using assms
proof (induction alive sid g vs rs rule: round_loop_induct5)
  case stop
  have "fv = fv @ [] \<and> fr = fr @ []
           \<and> map g_ids [] = map (\<lambda>s. (ctx_P ctx, ctx_R ctx, match_id ctx, round_id ctx, s))
                               [fs + 1..fs + int (length ([] :: GameResultRecord list))]
           \<and> remdups_adj (map v_ids []) = map g_ids []"
    by simp
  then show ?case by blast
next
  case (step alive sid g vs rs alive' sid' g' vs' rs')
  let ?x = "(ctx_P ctx, ctx_R ctx, match_id ctx, round_id ctx, sid + 1)"
  from round_step_ids [OF step(2)] obtain rows row where
    s: "vs' = vs @ rows" "rs' = rs @ [row]" "sid' = sid + 1"
       "map v_ids rows = replicate (length alive) ?x"
       "g_ids row = ?x"
    by blast
  from step(4) obtain nv nr where
    t: "fv = vs' @ nv" "fr = rs' @ nr"
       "map g_ids nr = map (\<lambda>s. (ctx_P ctx, ctx_R ctx, match_id ctx, round_id ctx, s))
                          [sid' + 1..sid' + int (length nr)]"
       "remdups_adj (map v_ids nv) = map g_ids nr"
    by blast
  have up: "[sid + 1..sid + int (length (row # nr))]
              = (sid + 1) # [sid' + 1..sid' + int (length nr)]"
    unfolding s(3) using upto_Suc_len [of sid "length nr"] by simp
  have g: "map g_ids (row # nr)
             = map (\<lambda>s. (ctx_P ctx, ctx_R ctx, match_id ctx, round_id ctx, s))
                 [sid + 1..sid + int (length (row # nr))]"
    unfolding up using s(5) t(3) by simp
  have "?x \<notin> set (map g_ids nr)" unfolding t(3) using s(3) by auto
  then have "?x \<notin> set (map v_ids nv)"
    using t(4) by (metis remdups_adj_set)
  moreover from round_running_length [OF step(1)] have "0 < length alive" by linarith
  ultimately have "remdups_adj (replicate (length alive) ?x @ map v_ids nv)
                     = ?x # remdups_adj (map v_ids nv)"
    by (intro remdups_adj_replicate_append)
  then have v: "remdups_adj (map v_ids (rows @ nv)) = map g_ids (row # nr)"
    using s(4,5) t(4) by simp
  have "fv = vs @ (rows @ nv) \<and> fr = rs @ (row # nr)
           \<and> map g_ids (row # nr)
               = map (\<lambda>s. (ctx_P ctx, ctx_R ctx, match_id ctx, round_id ctx, s))
                   [sid + 1..sid + int (length (row # nr))]
           \<and> remdups_adj (map v_ids (rows @ nv)) = map g_ids (row # nr)"
    using s(1,2) t(1,2) g v by simp
  then show ?case by blast
qed

lemma simulate_round_ids:
  assumes "simulate_round ctx players g vs rs = Inr (g', vs', rs')"
  shows "\<exists>nv nr. vs' = vs @ nv \<and> rs' = rs @ nr
           \<and> map g_ids nr
               = round_ids (ctx_P ctx) (ctx_R ctx) (match_id ctx) (round_id ctx) (length nr)
           \<and> remdups_adj (map v_ids nv)
               = round_ids (ctx_P ctx) (ctx_R ctx) (match_id ctx) (round_id ctx) (length nr)
           \<and> (round_running players (impostors ctx) \<longrightarrow> nr \<noteq> [])
           \<and> (\<not> round_running players (impostors ctx) \<longrightarrow> nr = [])"
proof -
  from assms obtain fa fs where
    run: "simulate_round_loop ctx players 0 g vs rs = Inr (fa, fs, g', vs', rs')"
    by (auto simp: simulate_round_def split: sum.splits)
  from simulate_round_loop_ids [OF run] obtain nv nr where
    i: "vs' = vs @ nv" "rs' = rs @ nr"
       "map g_ids nr = map (\<lambda>s. (ctx_P ctx, ctx_R ctx, match_id ctx, round_id ctx, s))
                          [0 + 1..0 + int (length nr)]"
       "remdups_adj (map v_ids nv) = map g_ids nr"
    by blast
  from simulate_round_loop_trace [OF run] obtain nr2 where
    t: "rs' = rs @ nr2" "fa = alive_after players nr2 (length nr2)"
       "\<not> round_running fa (impostors ctx)"
    by blast
  from i(2) t(1) have "nr2 = nr" by simp
  with t have "\<not> round_running (alive_after players nr (length nr)) (impostors ctx)" by simp
  then have ne: "round_running players (impostors ctx) \<longrightarrow> nr \<noteq> []" by auto
  have em: "nr = []" if "\<not> round_running players (impostors ctx)"
    using simulate_round_quiet [OF that, of g vs rs] assms i(2) by simp
  from i(3) have g: "map g_ids nr
      = round_ids (ctx_P ctx) (ctx_R ctx) (match_id ctx) (round_id ctx) (length nr)"
    by (simp add: round_ids_def)
  with i ne em show ?thesis by auto
qed

lemma initial_running:
  assumes P: "3 \<le> P" and imp: "imp \<in> set [0..P - 1]"
  shows "round_running [0..P - 1] {imp}"
proof -
  from imp have i: "{0..P - 1} \<inter> {imp} = {imp}" by auto
  from imp have "card ({0..P - 1} - {imp}) = card {0..P - 1} - 1" by simp
  also from P have "\<dots> = nat P - 1" by simp
  finally have c: "card ({0..P - 1} - {imp}) = nat P - 1" .
  from P have "1 < nat P - 1" by linarith
  with i c show ?thesis by (simp add: round_running_def impostors_win_def Let_def)
qed

lemma small_pool_not_running:
  assumes "P \<le> 2"
  shows "\<not> round_running [0..P - 1] imps"
proof
  assume "round_running [0..P - 1] imps"
  from round_running_length [OF this] assms show False by simp
qed

lemma simulate_match_loop_ids:
  "simulate_match_loop P R mid players [r0 + 1..r0 + int n] g vs rs = Inr (g', vs', rs') \<Longrightarrow>
   \<exists>nv nr ks. vs' = vs @ nv \<and> rs' = rs @ nr \<and> length ks = n
     \<and> map g_ids nr = rounds_ids P R mid r0 ks
     \<and> remdups_adj (map v_ids nv) = rounds_ids P R mid r0 ks
     \<and> (players = [0..P - 1]
          \<longrightarrow> (\<forall>k \<in> set ks. (P \<le> 2 \<longrightarrow> k = 0) \<and> (3 \<le> P \<longrightarrow> 1 \<le> k)))"
proof (induction n arbitrary: r0 g vs rs)
  case 0
  then have "vs' = vs @ [] \<and> rs' = rs @ [] \<and> length ([] :: nat list) = 0
     \<and> map g_ids [] = rounds_ids P R mid r0 []
     \<and> remdups_adj (map v_ids []) = rounds_ids P R mid r0 []
     \<and> (players = [0..P - 1]
          \<longrightarrow> (\<forall>k \<in> set ([] :: nat list). (P \<le> 2 \<longrightarrow> k = 0) \<and> (3 \<le> P \<longrightarrow> 1 \<le> k)))"
    by simp
  then show ?case by blast
next
  case (Suc n)
  let ?ctx = "\<lambda>imp. \<lparr>ctx_P = P, ctx_R = R, match_id = mid, round_id = r0 + 1,
                       step_id = 0, impostors = {imp}\<rparr>"
  from Suc.prems [unfolded upto_Suc_len] obtain imp g1 g2 vs2 rs2 where
    c: "rng_choice players g = Inr (imp, g1)"
    and r: "simulate_round (?ctx imp) players g1 vs rs = Inr (g2, vs2, rs2)"
    and rest: "simulate_match_loop P R mid players [r0 + 1 + 1..r0 + 1 + int n] g2 vs2 rs2
                 = Inr (g', vs', rs')"
    by (auto simp: Let_def split: sum.splits)
  from simulate_round_ids [OF r] obtain nv1 nr1 where
    a: "vs2 = vs @ nv1" "rs2 = rs @ nr1"
       "map g_ids nr1 = round_ids P R mid (r0 + 1) (length nr1)"
       "remdups_adj (map v_ids nv1) = round_ids P R mid (r0 + 1) (length nr1)"
       "round_running players {imp} \<longrightarrow> nr1 \<noteq> []"
       "\<not> round_running players {imp} \<longrightarrow> nr1 = []"
    by auto
  from Suc.IH [OF rest] obtain nv2 nr2 ks where
    b: "vs' = vs2 @ nv2" "rs' = rs2 @ nr2" "length ks = n"
       "map g_ids nr2 = rounds_ids P R mid (r0 + 1) ks"
       "remdups_adj (map v_ids nv2) = rounds_ids P R mid (r0 + 1) ks"
       "players = [0..P - 1]
          \<longrightarrow> (\<forall>k \<in> set ks. (P \<le> 2 \<longrightarrow> k = 0) \<and> (3 \<le> P \<longrightarrow> 1 \<le> k))"
    by blast
  have disj: "set (map v_ids nv1) \<inter> set (map v_ids nv2) = {}"
  proof -
    have e1: "set (map v_ids nv1) = set (round_ids P R mid (r0 + 1) (length nr1))"
      using a(4) by (metis remdups_adj_set)
    have e2: "set (map v_ids nv2) = set (rounds_ids P R mid (r0 + 1) ks)"
      using b(5) by (metis remdups_adj_set)
    have False if "x \<in> set (round_ids P R mid (r0 + 1) (length nr1))"
      and "x \<in> set (rounds_ids P R mid (r0 + 1) ks)" for x
      using round_ids_mem [OF that(1)] rounds_ids_mem [OF that(2)] by simp
    then show ?thesis unfolding e1 e2 by blast
  qed
  have v: "remdups_adj (map v_ids (nv1 @ nv2)) = rounds_ids P R mid r0 (length nr1 # ks)"
    using remdups_adj_append_disjoint [OF disj] a(4) b(5) by simp
  have g: "map g_ids (nr1 @ nr2) = rounds_ids P R mid r0 (length nr1 # ks)"
    using a(3) b(4) by simp
  have cnt: "\<forall>k \<in> set (length nr1 # ks). (P \<le> 2 \<longrightarrow> k = 0) \<and> (3 \<le> P \<longrightarrow> 1 \<le> k)"
    if p: "players = [0..P - 1]"
  proof -
    from rng_choice_Inr [OF c] p have imp: "imp \<in> set [0..P - 1]" by simp
    have big: "1 \<le> length nr1" if "3 \<le> P"
    proof -
      from initial_running [OF that imp] p a(5) have "nr1 \<noteq> []" by simp
      then show ?thesis by (cases nr1) auto
    qed
    have small: "length nr1 = 0" if "P \<le> 2"
      using small_pool_not_running [OF that, of "{imp}"] p a(6) by simp
    from big small b(6) p show ?thesis by simp
  qed
  have "vs' = vs @ (nv1 @ nv2) \<and> rs' = rs @ (nr1 @ nr2) \<and> length (length nr1 # ks) = Suc n
     \<and> map g_ids (nr1 @ nr2) = rounds_ids P R mid r0 (length nr1 # ks)
     \<and> remdups_adj (map v_ids (nv1 @ nv2)) = rounds_ids P R mid r0 (length nr1 # ks)
     \<and> (players = [0..P - 1]
          \<longrightarrow> (\<forall>k \<in> set (length nr1 # ks). (P \<le> 2 \<longrightarrow> k = 0) \<and> (3 \<le> P \<longrightarrow> 1 \<le> k)))"
    using a(1,2) b(1,2,3) g v cnt by simp
  then show ?case by blast
qed

lemma rounds_upto: "[1..R] = [0 + 1..0 + int (nat R)]"
  by (cases "0 \<le> R") simp_all

lemma simulate_match_ids:
  assumes "simulate_match P R mid g vs rs = Inr (g', vs', rs')"
  shows "\<exists>nv nr ks. vs' = vs @ nv \<and> rs' = rs @ nr
     \<and> map g_ids nr = match_ids P R mid ks
     \<and> remdups_adj (map v_ids nv) = match_ids P R mid ks
     \<and> round_counts_ok (P, R) ks"
proof -
  from assms have
    "simulate_match_loop P R mid [0..P - 1] [0 + 1..0 + int (nat R)] g vs rs = Inr (g', vs', rs')"
    unfolding simulate_match_def rounds_upto [symmetric] .
  from simulate_match_loop_ids [OF this] show ?thesis
    unfolding match_ids_def round_counts_ok_def by auto
qed

lemma sweep_out_Nil: "sweep_out mid vs rs mid vs rs []"
  by (simp add: sweep_out_def)

lemma sweep_out_append:
  assumes a: "sweep_out mid vs rs mid1 vs1 rs1 cs1"
    and b: "sweep_out mid1 vs1 rs1 mid2 vs2 rs2 cs2"
  shows "sweep_out mid vs rs mid2 vs2 rs2 (cs1 @ cs2)"
proof -
  from a obtain nv1 nr1 where
    a': "vs1 = vs @ nv1" "rs1 = rs @ nr1" "mid1 = mid + int (length cs1)"
        "map g_ids nr1 = sweep_ids mid cs1"
        "remdups_adj (map v_ids nv1) = sweep_ids mid cs1"
    unfolding sweep_out_def by blast
  from b obtain nv2 nr2 where
    b': "vs2 = vs1 @ nv2" "rs2 = rs1 @ nr2" "mid2 = mid1 + int (length cs2)"
        "map g_ids nr2 = sweep_ids mid1 cs2"
        "remdups_adj (map v_ids nv2) = sweep_ids mid1 cs2"
    unfolding sweep_out_def by blast
  have disj: "set (map v_ids nv1) \<inter> set (map v_ids nv2) = {}"
  proof -
    have e1: "set (map v_ids nv1) = set (sweep_ids mid cs1)"
      using a'(5) by (metis remdups_adj_set)
    have e2: "set (map v_ids nv2) = set (sweep_ids (mid + int (length cs1)) cs2)"
      using b'(5) a'(3) by (metis remdups_adj_set)
    have False if "x \<in> set (sweep_ids mid cs1)"
      and "x \<in> set (sweep_ids (mid + int (length cs1)) cs2)" for x
      using sweep_ids_mem_upper [OF that(1)] sweep_ids_mem [OF that(2)] by simp
    then show ?thesis unfolding e1 e2 by blast
  qed
  have v: "remdups_adj (map v_ids (nv1 @ nv2)) = sweep_ids mid (cs1 @ cs2)"
    using remdups_adj_append_disjoint [OF disj] a'(3,5) b'(5) by (simp add: sweep_ids_append)
  have g: "map g_ids (nr1 @ nr2) = sweep_ids mid (cs1 @ cs2)"
    using a'(3,4) b'(4) by (simp add: sweep_ids_append)
  have "vs2 = vs @ (nv1 @ nv2) \<and> rs2 = rs @ (nr1 @ nr2)
        \<and> mid2 = mid + int (length (cs1 @ cs2))
        \<and> map g_ids (nr1 @ nr2) = sweep_ids mid (cs1 @ cs2)
        \<and> remdups_adj (map v_ids (nv1 @ nv2)) = sweep_ids mid (cs1 @ cs2)"
    using a'(1,2,3) b'(1,2,3) g v by simp
  then show ?thesis unfolding sweep_out_def by blast
qed

lemma simulate_match_sweep:
  assumes "simulate_match P R (mid + 1) g vs rs = Inr (g', vs', rs')"
  shows "\<exists>ks. sweep_out mid vs rs (mid + 1) vs' rs' [((P, R), ks)] \<and> round_counts_ok (P, R) ks"
proof -
  from simulate_match_ids [OF assms] obtain nv nr ks where
    m: "vs' = vs @ nv" "rs' = rs @ nr"
       "map g_ids nr = match_ids P R (mid + 1) ks"
       "remdups_adj (map v_ids nv) = match_ids P R (mid + 1) ks"
       "round_counts_ok (P, R) ks"
    by blast
  have "vs' = vs @ nv \<and> rs' = rs @ nr \<and> mid + 1 = mid + int (length [((P, R), ks)])
        \<and> map g_ids nr = sweep_ids mid [((P, R), ks)]
        \<and> remdups_adj (map v_ids nv) = sweep_ids mid [((P, R), ks)]"
    using m by simp
  then have "sweep_out mid vs rs (mid + 1) vs' rs' [((P, R), ks)]"
    unfolding sweep_out_def by blast
  with m(5) show ?thesis by blast
qed

lemma replicate_loop_sweep:
  "replicate_loop n P R mid g vs rs = Inr (mid', g', vs', rs') \<Longrightarrow>
   \<exists>cs. sweep_out mid vs rs mid' vs' rs' cs \<and> map fst cs = replicate n (P, R)
     \<and> (\<forall>c \<in> set cs. round_counts_ok (fst c) (snd c))"
proof (induction n arbitrary: mid g vs rs)
  case 0
  then have "sweep_out mid vs rs mid' vs' rs' [] \<and> map fst [] = replicate 0 (P, R)
     \<and> (\<forall>c \<in> set ([] :: ((int \<times> int) \<times> nat list) list). round_counts_ok (fst c) (snd c))"
    by (simp add: sweep_out_Nil)
  then show ?case by blast
next
  case (Suc n)
  from Suc.prems obtain g2 vs2 rs2 where
    m: "simulate_match P R (mid + 1) g vs rs = Inr (g2, vs2, rs2)"
    and rest: "replicate_loop n P R (mid + 1) g2 vs2 rs2 = Inr (mid', g', vs', rs')"
    by (auto simp: Let_def split: sum.splits)
  from simulate_match_sweep [OF m] obtain ks where
    a: "sweep_out mid vs rs (mid + 1) vs2 rs2 [((P, R), ks)]" "round_counts_ok (P, R) ks"
    by blast
  from Suc.IH [OF rest] obtain cs where
    b: "sweep_out (mid + 1) vs2 rs2 mid' vs' rs' cs" "map fst cs = replicate n (P, R)"
       "\<forall>c \<in> set cs. round_counts_ok (fst c) (snd c)"
    by blast
  from sweep_out_append [OF a(1) b(1)] a(2) b(2,3)
  have "sweep_out mid vs rs mid' vs' rs' (((P, R), ks) # cs)
     \<and> map fst (((P, R), ks) # cs) = replicate (Suc n) (P, R)
     \<and> (\<forall>c \<in> set (((P, R), ks) # cs). round_counts_ok (fst c) (snd c))"
    by simp
  then show ?case by blast
qed

lemma R_loop_sweep:
  "R_loop Rs nm P mid g vs rs = Inr (mid', g', vs', rs') \<Longrightarrow>
   \<exists>cs. sweep_out mid vs rs mid' vs' rs' cs
     \<and> map fst cs = concat (map (\<lambda>R. replicate (nat nm) (P, R)) Rs)
     \<and> (\<forall>c \<in> set cs. round_counts_ok (fst c) (snd c))"
proof (induction Rs arbitrary: mid g vs rs)
  case Nil
  then have "sweep_out mid vs rs mid' vs' rs' []
     \<and> map fst [] = concat (map (\<lambda>R. replicate (nat nm) (P, R)) [])
     \<and> (\<forall>c \<in> set ([] :: ((int \<times> int) \<times> nat list) list). round_counts_ok (fst c) (snd c))"
    by (simp add: sweep_out_Nil)
  then show ?case by blast
next
  case (Cons R Rs)
  from Cons.prems obtain mid2 g2 vs2 rs2 where
    m: "replicate_loop (nat nm) P R mid g vs rs = Inr (mid2, g2, vs2, rs2)"
    and rest: "R_loop Rs nm P mid2 g2 vs2 rs2 = Inr (mid', g', vs', rs')"
    by (auto split: sum.splits)
  from replicate_loop_sweep [OF m] obtain cs1 where
    a: "sweep_out mid vs rs mid2 vs2 rs2 cs1" "map fst cs1 = replicate (nat nm) (P, R)"
       "\<forall>c \<in> set cs1. round_counts_ok (fst c) (snd c)"
    by blast
  from Cons.IH [OF rest] obtain cs2 where
    b: "sweep_out mid2 vs2 rs2 mid' vs' rs' cs2"
       "map fst cs2 = concat (map (\<lambda>R. replicate (nat nm) (P, R)) Rs)"
       "\<forall>c \<in> set cs2. round_counts_ok (fst c) (snd c)"
    by blast
  from sweep_out_append [OF a(1) b(1)] a(2,3) b(2,3)
  have "sweep_out mid vs rs mid' vs' rs' (cs1 @ cs2)
     \<and> map fst (cs1 @ cs2) = concat (map (\<lambda>R. replicate (nat nm) (P, R)) (R # Rs))
     \<and> (\<forall>c \<in> set (cs1 @ cs2). round_counts_ok (fst c) (snd c))"
    by auto
  then show ?case by blast
qed

lemma P_loop_sweep:
  "P_loop Ps Rs nm mid g vs rs = Inr (mid', g', vs', rs') \<Longrightarrow>
   \<exists>cs. sweep_out mid vs rs mid' vs' rs' cs
     \<and> map fst cs = sweep_cells Ps Rs nm
     \<and> (\<forall>c \<in> set cs. round_counts_ok (fst c) (snd c))"
proof (induction Ps arbitrary: mid g vs rs)
  case Nil
  then have "sweep_out mid vs rs mid' vs' rs' []
     \<and> map fst [] = sweep_cells [] Rs nm
     \<and> (\<forall>c \<in> set ([] :: ((int \<times> int) \<times> nat list) list). round_counts_ok (fst c) (snd c))"
    by (simp add: sweep_out_Nil sweep_cells_def)
  then show ?case by blast
next
  case (Cons P Ps)
  from Cons.prems obtain mid2 g2 vs2 rs2 where
    m: "R_loop Rs nm P mid g vs rs = Inr (mid2, g2, vs2, rs2)"
    and rest: "P_loop Ps Rs nm mid2 g2 vs2 rs2 = Inr (mid', g', vs', rs')"
    by (auto split: sum.splits)
  from R_loop_sweep [OF m] obtain cs1 where
    a: "sweep_out mid vs rs mid2 vs2 rs2 cs1"
       "map fst cs1 = concat (map (\<lambda>R. replicate (nat nm) (P, R)) Rs)"
       "\<forall>c \<in> set cs1. round_counts_ok (fst c) (snd c)"
    by blast
  from Cons.IH [OF rest] obtain cs2 where
    b: "sweep_out mid2 vs2 rs2 mid' vs' rs' cs2"
       "map fst cs2 = sweep_cells Ps Rs nm"
       "\<forall>c \<in> set cs2. round_counts_ok (fst c) (snd c)"
    by blast
  from sweep_out_append [OF a(1) b(1)] a(2,3) b(2,3)
  have "sweep_out mid vs rs mid' vs' rs' (cs1 @ cs2)
     \<and> map fst (cs1 @ cs2) = sweep_cells (P # Ps) Rs nm
     \<and> (\<forall>c \<in> set (cs1 @ cs2). round_counts_ok (fst c) (snd c))"
    by (auto simp: sweep_cells_def)
  then show ?case by blast
qed

lemma length_sweep_cells: "length (sweep_cells Ps Rs nm) = length Ps * length Rs * nat nm"
proof -
  have inner: "length (concat (map (\<lambda>R. replicate (nat nm) (P, R)) Rs)) = length Rs * nat nm"
    for P :: int
    by (induction Rs) simp_all
  show ?thesis unfolding sweep_cells_def by (induction Ps) (simp_all add: inner algebra_simps)
qed

lemma sweep_cells_mem:
  "c \<in> set (sweep_cells Ps Rs nm) \<Longrightarrow> fst c \<in> set Ps \<and> snd c \<in> set Rs"
  by (auto simp: sweep_cells_def split: if_splits)

lemma remdups_adj_map_remdups_adj:
  "remdups_adj (map f (remdups_adj xs)) = remdups_adj (map f xs)"
proof (induction xs rule: remdups_adj.induct)
  case 1
  then show ?case by simp
next
  case (2 x)
  then show ?case by simp
next
  case (3 x y xs)
  show ?case
  proof (cases "x = y")
    case True
    with 3 show ?thesis by simp
  next
    case False
    with 3 have IH: "remdups_adj (map f (remdups_adj (y # xs))) = remdups_adj (map f (y # xs))"
      by simp
    have "remdups_adj (map f (remdups_adj (x # y # xs)))
            = remdups_adj (f x # map f (remdups_adj (y # xs)))"
      using False by simp
    also have "\<dots> = remdups_adj (f x # map f (y # xs))"
      by (subst (1 2) remdups_adj_Cons) (simp only: IH)
    finally show ?thesis by simp
  qed
qed

lemma map_const:
  "\<forall>x \<in> set xs. f x = m \<Longrightarrow> map f xs = replicate (length xs) m"
  by (induction xs) simp_all

lemma match_ids_nonempty:
  assumes "ks \<noteq> []" and "\<forall>k \<in> set ks. 1 \<le> k"
  shows "match_ids P R m ks \<noteq> []"
proof -
  from assms obtain k ks' where ks: "ks = k # ks'" "1 \<le> k" by (cases ks) auto
  then have "round_ids P R m (0 + 1) k \<noteq> []" by (simp add: round_ids_def)
  with ks show ?thesis by (simp add: match_ids_def)
qed

lemma sweep_ids_match_ids:
  "\<forall>c \<in> set cs. snd c \<noteq> [] \<and> (\<forall>k \<in> set (snd c). 1 \<le> k) \<Longrightarrow>
   remdups_adj (map coord_match (sweep_ids mid cs)) = [mid + 1..mid + int (length cs)]"
proof (induction cs arbitrary: mid)
  case Nil
  then show ?case by simp
next
  case (Cons c cs)
  let ?m = "match_ids (fst (fst c)) (snd (fst c)) (mid + 1) (snd c)"
  from Cons.prems have ne: "?m \<noteq> []"
    by (intro match_ids_nonempty) simp_all
  have "map coord_match ?m = replicate (length ?m) (mid + 1)"
    by (intro map_const) (auto dest: match_ids_mem)
  moreover have "mid + 1 \<notin> set (map coord_match (sweep_ids (mid + 1) cs))"
    by (auto dest: sweep_ids_mem)
  moreover from ne have "0 < length ?m" by simp
  ultimately have "remdups_adj (map coord_match (sweep_ids mid (c # cs)))
                     = (mid + 1) # remdups_adj (map coord_match (sweep_ids (mid + 1) cs))"
    by (simp add: remdups_adj_replicate_append)
  also from Cons.prems have "remdups_adj (map coord_match (sweep_ids (mid + 1) cs))
                               = [mid + 1 + 1..mid + 1 + int (length cs)]"
    by (intro Cons.IH) simp
  finally show ?case using upto_Suc_len [of mid "length cs"] by simp
qed

theorem ids_contiguous_counterexample:
  "run_complete_simulation (\<lambda>s. ex_rng 0)
     \<lparr>P_values = [2, 3], R_values = [1], n_matches = 1, alpha = 0\<rparr> 42
   = Inr (map (\<lambda>v. v\<lparr>v_match := 2\<rparr>) ex_votes, map (\<lambda>r. r\<lparr>g_match := 2\<rparr>) ex_results)
   \<and> map g_match (map (\<lambda>r. r\<lparr>g_match := 2\<rparr>) ex_results) = [2]
   \<and> remdups_adj (map v_match (map (\<lambda>v. v\<lparr>v_match := 2\<rparr>) ex_votes)) = [2]"
  by code_simp

text \<open>
  Claim C8, amended. The (P, R, match, round, step) columns of the result rows, in output
  order, are those of a grid. The matches of the sweep, in the order of the three nested
  loops (\<open>P\<close> values, then \<open>R\<close> values, then replicates), take the identifiers 1, 2,
  ... and every row of a match carries the \<open>P\<close> and \<open>R\<close> of its cell; a match has its
  \<open>R\<close> rounds numbered from 1 (none when \<open>R < 1\<close>), and a round that ran \<open>k\<close> steps
  has exactly the rows of the steps \<open>1..k\<close>. Every round of a match with \<open>P \<le> 2\<close> has
  \<open>k = 0\<close>, leaves no row, and its identifiers are missing from the output; every round
  of a match with \<open>P \<ge> 3\<close> has \<open>k \<ge> 1\<close>. The vote rows carry the same sequence of
  columns, each repeated on adjacent rows (once per voter). When every \<open>P\<close> value is at
  least 3 and every \<open>R\<close> value at least 1, the match identifiers present in either table
  are exactly \<open>1..M\<close> in increasing order, \<open>M\<close> being the number of matches.
\<close>

theorem ids_grid:
  assumes run: "run_complete_simulation default_rng params seed = Inr (votes, results)"
  shows "\<exists>cs.
      map fst cs = sweep_cells (P_values params) (R_values params) (n_matches params)
    \<and> (\<forall>c \<in> set cs. round_counts_ok (fst c) (snd c))
    \<and> map g_ids results = sweep_ids 0 cs
    \<and> remdups_adj (map v_ids votes) = sweep_ids 0 cs
    \<and> length cs
        = length (P_values params) * length (R_values params) * nat (n_matches params)
    \<and> ((\<forall>P \<in> set (P_values params). 3 \<le> P) \<and> (\<forall>R \<in> set (R_values params). 1 \<le> R)
         \<longrightarrow> remdups_adj (map g_match results) = [1..int (length cs)]
           \<and> remdups_adj (map v_match votes) = [1..int (length cs)])"
proof -
  from run obtain mid' g' where
    "P_loop (P_values params) (R_values params) (n_matches params) 0 (default_rng seed) [] []
       = Inr (mid', g', votes, results)"
    by (auto simp: run_complete_simulation_def Let_def split: sum.splits if_splits)
  from P_loop_sweep [OF this] obtain cs where
    k: "sweep_out 0 [] [] mid' votes results cs"
       "map fst cs = sweep_cells (P_values params) (R_values params) (n_matches params)"
       "\<forall>c \<in> set cs. round_counts_ok (fst c) (snd c)"
    by blast
  from k(1) have g: "map g_ids results = sweep_ids 0 cs"
    and v: "remdups_adj (map v_ids votes) = sweep_ids 0 cs"
    by (auto simp: sweep_out_def)
  have "length cs = length (map fst cs)" by simp
  also have "\<dots> = length (P_values params) * length (R_values params) * nat (n_matches params)"
    unfolding k(2) by (rule length_sweep_cells)
  finally have len: "length cs
        = length (P_values params) * length (R_values params) * nat (n_matches params)" .
  have ids: "remdups_adj (map g_match results) = [1..int (length cs)]
           \<and> remdups_adj (map v_match votes) = [1..int (length cs)]"
    if P: "\<forall>P \<in> set (P_values params). 3 \<le> P" and R: "\<forall>R \<in> set (R_values params). 1 \<le> R"
  proof -
    have all: "snd c \<noteq> [] \<and> (\<forall>k \<in> set (snd c). 1 \<le> k)" if c: "c \<in> set cs" for c
    proof -
      from c have "fst c \<in> set (map fst cs)" by simp
      from sweep_cells_mem [OF this [unfolded k(2)]] P R
      have big: "3 \<le> fst (fst c)" "1 \<le> snd (fst c)" by auto
      from k(3) c have ok: "round_counts_ok (fst c) (snd c)" by blast
      from ok big(2) have "1 \<le> length (snd c)" by (simp add: round_counts_ok_def)
      then have "snd c \<noteq> []" by auto
      moreover from ok big(1) have "\<forall>k \<in> set (snd c). 1 \<le> k"
        by (simp add: round_counts_ok_def)
      ultimately show ?thesis by simp
    qed
    then have all': "\<forall>c \<in> set cs. snd c \<noteq> [] \<and> (\<forall>k \<in> set (snd c). 1 \<le> k)" by blast
    have grid: "remdups_adj (map coord_match (sweep_ids 0 cs)) = [1..int (length cs)]"
      using sweep_ids_match_ids [OF all', of 0] by simp
    have "map g_match results = map coord_match (map g_ids results)"
      by (simp add: g_ids_def coord_match_def comp_def)
    with g grid have a: "remdups_adj (map g_match results) = [1..int (length cs)]" by simp
    have "map v_match votes = map coord_match (map v_ids votes)"
      by (simp add: v_ids_def coord_match_def comp_def)
    then have "remdups_adj (map v_match votes)
                 = remdups_adj (map coord_match (remdups_adj (map v_ids votes)))"
      by (simp only: remdups_adj_map_remdups_adj)
    with v grid have b: "remdups_adj (map v_match votes) = [1..int (length cs)]" by simp
    from a b show ?thesis ..
  qed
  from k(2,3) g v len ids show ?thesis by blast
qed

lemma run_sweep_example:
  "run_complete_simulation (\<lambda>s. ex_rng_id)
     \<lparr>P_values = [2, 4], R_values = [2], n_matches = 1, alpha = 0\<rparr> 42
   = Inr (ex_sweep_votes, ex_sweep_results)"
  by code_simp

lemma sweep_example_grid:
  "map g_ids ex_sweep_results = sweep_ids 0 [((2, 2), [0, 0]), ((4, 2), [2, 2])]
   \<and> remdups_adj (map v_ids ex_sweep_votes) = sweep_ids 0 [((2, 2), [0, 0]), ((4, 2), [2, 2])]
   \<and> sweep_cells [2, 4] [2] 1 = [(2, 2), (4, 2)]
   \<and> round_counts_ok (2, 2) [0, 0] \<and> round_counts_ok (4, 2) [2, 2]"
  by code_simp

theorem ids_grid_witness:
  "run_complete_simulation (\<lambda>s. ex_rng_id)
     \<lparr>P_values = [2, 4], R_values = [2], n_matches = 1, alpha = 0\<rparr> 42
   = Inr (ex_sweep_votes, ex_sweep_results)
   \<and> (\<exists>cs. map fst cs = [(2, 2), (4, 2)]
         \<and> (\<forall>c \<in> set cs. round_counts_ok (fst c) (snd c))
         \<and> map g_ids ex_sweep_results = sweep_ids 0 cs
         \<and> remdups_adj (map v_ids ex_sweep_votes) = sweep_ids 0 cs
         \<and> length cs = 2)
   \<and> map g_ids ex_sweep_results = sweep_ids 0 [((2, 2), [0, 0]), ((4, 2), [2, 2])]
   \<and> remdups_adj (map v_ids ex_sweep_votes) = sweep_ids 0 [((2, 2), [0, 0]), ((4, 2), [2, 2])]
   \<and> round_counts_ok (2, 2) [0, 0] \<and> round_counts_ok (4, 2) [2, 2]
   \<and> run_complete_simulation (\<lambda>s. ex_rng 0)
        \<lparr>P_values = [3], R_values = [1], n_matches = 1, alpha = 0\<rparr> 42
      = Inr (ex_votes, ex_results)
   \<and> (\<exists>cs. map fst cs = [(3, 1)]
         \<and> map g_ids ex_results = sweep_ids 0 cs
         \<and> remdups_adj (map v_ids ex_votes) = sweep_ids 0 cs
         \<and> remdups_adj (map g_match ex_results) = [1..int (length cs)]
         \<and> remdups_adj (map v_match ex_votes) = [1..int (length cs)])"
proof -
  from sweep_example_grid have cells: "sweep_cells [2, 4] [2] 1 = [(2, 2), (4, 2)]" by blast
  from ids_grid [OF run_sweep_example] obtain cs where
    c: "map fst cs = sweep_cells (P_values \<lparr>P_values = [2, 4], R_values = [2],
                                   n_matches = 1, alpha = 0\<rparr>)
                       (R_values \<lparr>P_values = [2, 4], R_values = [2],
                                   n_matches = 1, alpha = 0\<rparr>)
                       (n_matches \<lparr>P_values = [2, 4], R_values = [2],
                                   n_matches = 1, alpha = 0\<rparr>)"
       "\<forall>c \<in> set cs. round_counts_ok (fst c) (snd c)"
       "map g_ids ex_sweep_results = sweep_ids 0 cs"
       "remdups_adj (map v_ids ex_sweep_votes) = sweep_ids 0 cs"
    by blast
  from c(1) have m: "map fst cs = [(2, 2), (4, 2)]" by (simp only: SimParams.simps cells)
  then have "length (map fst cs) = 2" by simp
  then have l: "length cs = 2" by simp
  from m c(2,3,4) l have a: "\<exists>cs. map fst cs = [(2, 2), (4, 2)]
         \<and> (\<forall>c \<in> set cs. round_counts_ok (fst c) (snd c))
         \<and> map g_ids ex_sweep_results = sweep_ids 0 cs
         \<and> remdups_adj (map v_ids ex_sweep_votes) = sweep_ids 0 cs
         \<and> length cs = 2"
    by (rule_tac x = cs in exI) (intro conjI; assumption)
  have cells': "sweep_cells [3] [1] 1 = [(3, 1)]" by (simp add: sweep_cells_def)
  have big: "(\<forall>P \<in> set (P_values \<lparr>P_values = [3], R_values = [1], n_matches = 1, alpha = 0\<rparr>).
                3 \<le> P)
           \<and> (\<forall>R \<in> set (R_values \<lparr>P_values = [3], R_values = [1], n_matches = 1, alpha = 0\<rparr>).
                1 \<le> R)"
    by simp
  from ids_grid [OF run_example] big obtain cs' where
    d: "map fst cs' = sweep_cells (P_values \<lparr>P_values = [3], R_values = [1],
                                    n_matches = 1, alpha = 0\<rparr>)
                        (R_values \<lparr>P_values = [3], R_values = [1],
                                    n_matches = 1, alpha = 0\<rparr>)
                        (n_matches \<lparr>P_values = [3], R_values = [1],
                                    n_matches = 1, alpha = 0\<rparr>)"
       "map g_ids ex_results = sweep_ids 0 cs'"
       "remdups_adj (map v_ids ex_votes) = sweep_ids 0 cs'"
       "remdups_adj (map g_match ex_results) = [1..int (length cs')]"
       "remdups_adj (map v_match ex_votes) = [1..int (length cs')]"
    by blast
  from d(1) have m': "map fst cs' = [(3, 1)]" by (simp only: SimParams.simps cells')
  from m' d(2-5) have b: "\<exists>cs. map fst cs = [(3, 1)]
         \<and> map g_ids ex_results = sweep_ids 0 cs
         \<and> remdups_adj (map v_ids ex_votes) = sweep_ids 0 cs
         \<and> remdups_adj (map g_match ex_results) = [1..int (length cs)]
         \<and> remdups_adj (map v_match ex_votes) = [1..int (length cs)]"
    by (rule_tac x = cs' in exI) (intro conjI; assumption)
  from sweep_example_grid have g: "map g_ids ex_sweep_results
        = sweep_ids 0 [((2, 2), [0, 0]), ((4, 2), [2, 2])]"
    and v: "remdups_adj (map v_ids ex_sweep_votes)
        = sweep_ids 0 [((2, 2), [0, 0]), ((4, 2), [2, 2])]"
    and o: "round_counts_ok (2, 2) [0, 0]" "round_counts_ok (4, 2) [2, 2]"
    by blast+
  show ?thesis
    by (intro conjI) (rule run_sweep_example a g v o run_example b)+
qed

end
